theory Spec2Isabelle
  imports Main "HOL-Library.Word"
begin

unbundle bit_operations_syntax

section \<open>C strings and byte buffers\<close>

text \<open>
  A \<^verbatim>\<open>const char*\<close> that the code reads as a NUL-terminated string is the list of its
  characters before the terminator. A fixed \<^verbatim>\<open>char[N]\<close> array (the value buffer of an
  entry, the dirty backup area, a caller's output buffer) is the list of its bytes, the
  terminator included, and is read back with \<open>c_str\<close>.
\<close>

type_synonym u32 = "32 word"

definition NUL :: char where
  "NUL = CHR 0x00"

definition c_str :: "string \<Rightarrow> string" where
  "c_str buf = takeWhile (\<lambda>c. c \<noteq> NUL) buf"

definition strlen :: "string \<Rightarrow> nat" where
  "strlen buf = length (c_str buf)"

text \<open>\<^verbatim>\<open>memcpy(dst, src, n)\<close> on a destination array: the first \<open>n\<close> bytes are replaced.\<close>

definition memcpy :: "string \<Rightarrow> string \<Rightarrow> nat \<Rightarrow> string" where
  "memcpy dst src n = take n src @ drop n dst"

text \<open>\<^verbatim>\<open>strlcpy(dst, src, siz)\<close>: at most \<open>siz - 1\<close> characters of the string, then the terminator.\<close>

definition strlcpy :: "string \<Rightarrow> string \<Rightarrow> nat \<Rightarrow> string" where
  "strlcpy dst src siz =
     (if siz = 0 then dst
      else (let n = min (strlen src) (siz - 1)
            in (memcpy dst (c_str src) n)[n := NUL]))"

text \<open>
  \<^verbatim>\<open>strncmp\<close>: the difference of the first pair of bytes that differ among the first
  \<open>n\<close>, the terminator counting as byte 0.
\<close>

fun strncmp :: "string \<Rightarrow> string \<Rightarrow> nat \<Rightarrow> int" where
  "strncmp a b 0 = 0"
| "strncmp [] [] (Suc n) = 0"
| "strncmp [] (y # ys) (Suc n) = - of_char y"
| "strncmp (x # xs) [] (Suc n) = of_char x"
| "strncmp (x # xs) (y # ys) (Suc n) =
     (if x = y then strncmp xs ys n else of_char x - of_char y)"

definition strcmp :: "string \<Rightarrow> string \<Rightarrow> int" where
  "strcmp a b = strncmp a b (Suc (max (length a) (length b)))"

text \<open>\<^verbatim>\<open>strchr(s, c)\<close> as the index of the first occurrence, \<open>None\<close> for a null result.\<close>

fun strchr :: "string \<Rightarrow> char \<Rightarrow> nat option" where
  "strchr [] c = None"
| "strchr (x # xs) c = (if x = c then Some 0 else map_option Suc (strchr xs c))"

section \<open>Constants\<close>

text \<open>
  Modelled from the spec: the headers that declare \<^verbatim>\<open>PROP_VALUE_MAX\<close> and
  \<^verbatim>\<open>PROP_NAME_MAX\<close> are not among the sources. The v1 wire message
  \<^verbatim>\<open>{cmd: u32, name: [32]u8, value: [92]u8}\<close> of the specification is the struct
  \<^verbatim>\<open>prop_msg {unsigned cmd; char name[PROP_NAME_MAX]; char value[PROP_VALUE_MAX];}\<close>
  of \<^verbatim>\<open>system_property_set.cpp\<close>, which fixes both.
\<close>

definition PROP_VALUE_MAX :: nat where
  "PROP_VALUE_MAX = 92"

definition PROP_NAME_MAX :: nat where
  "PROP_NAME_MAX = 32"

definition kLongLegacyError :: string where
  "kLongLegacyError = ''Must use __system_property_read_callback() to read''"

text \<open>
  Modelled from the spec: \<^verbatim>\<open>prop_info::kLongFlag\<close> is declared in \<^verbatim>\<open>prop_info.h\<close>, which is
  not among the sources. The specification calls it "a flag bit in the initial serial";
  it is taken to be bit 16, which lies in neither the length field nor the dirty bit.
\<close>

definition kLongFlag :: u32 where
  "kLongFlag = push_bit 16 1"

text \<open>The sentinel \<^verbatim>\<open>~0u\<close> of the binary index: no context, no type.\<close>

definition NO_INDEX :: u32 where
  "NO_INDEX = NOT 0"

section \<open>The serial word (\<^verbatim>\<open>system_properties.cpp\<close>)\<close>

definition SERIAL_DIRTY :: "u32 \<Rightarrow> u32" where
  "SERIAL_DIRTY serial = serial AND 1"

definition SERIAL_VALUE_LEN :: "u32 \<Rightarrow> u32" where
  "SERIAL_VALUE_LEN serial = drop_bit 24 serial"

text \<open>The sequence field, bits 23..1, as the specification names it.\<close>

definition SERIAL_SEQUENCE :: "u32 \<Rightarrow> u32" where
  "SERIAL_SEQUENCE serial = drop_bit 1 (serial AND 0xffffff)"

definition is_read_only :: "string \<Rightarrow> bool" where
  "is_read_only name = (strncmp name ''ro.'' 3 = 0)"

section \<open>The binary index (\<^verbatim>\<open>property_info_parser.cpp\<close>)\<close>

text \<open>
  Modelled from the spec: the accessors of \<^verbatim>\<open>TrieNode\<close> and \<^verbatim>\<open>PropertyEntry\<close> are declared in
  \<^verbatim>\<open>property_info_parser.h\<close>, which is not among the sources. A node of the index carries
  its name, an optional context index and type index (\<open>NO_INDEX\<close> for none), its prefix
  entries, its exact-match entries and its child nodes; an entry carries its name, the
  recorded length of the name and the two indices.
\<close>

record PropertyEntry =
  pe_name :: string
  pe_namelen :: nat
  pe_context_index :: u32
  pe_type_index :: u32

datatype TrieNode =
  TrieNode (tn_name: string) (tn_context_index: u32) (tn_type_index: u32)
    (tn_prefixes: "PropertyEntry list") (tn_exact_matches: "PropertyEntry list")
    (tn_child_nodes: "TrieNode list")

text \<open>
  The binary search \<^verbatim>\<open>Find\<close> of the anonymous namespace, on C \<^verbatim>\<open>int\<close>s:
  \<open>f\<close> is the comparison of the element at an index with the key.
\<close>

function Find_loop :: "(int \<Rightarrow> int) \<Rightarrow> int \<Rightarrow> int \<Rightarrow> int" where
  "Find_loop f bottom top1 =
     (if top1 \<ge> bottom then
        (let search = (top1 + bottom) div 2;
             cmp = f search
         in if cmp = 0 then search
            else Find_loop f (if cmp < 0 then search + 1 else bottom)
                             (if cmp > 0 then search - 1 else top1))
      else - 1)"
  by pat_completeness auto
termination
  by (relation "measure (\<lambda>(f, bottom, top1). nat (top1 - bottom + 1))") auto

definition Find :: "nat \<Rightarrow> (int \<Rightarrow> int) \<Rightarrow> int" where
  "Find array_length f = Find_loop f 0 (int array_length - 1)"

definition FindChildForString :: "TrieNode \<Rightarrow> string \<Rightarrow> nat \<Rightarrow> TrieNode option" where
  "FindChildForString node name namelen =
     (let node_index = Find (length (tn_child_nodes node))
            (\<lambda>array_offset.
               let child_name = tn_name (tn_child_nodes node ! nat array_offset);
                   cmp = strncmp child_name name namelen
               in if cmp = 0 \<and> namelen < length child_name then 1 else cmp)
      in if node_index = - 1 then None
         else Some (tn_child_nodes node ! nat node_index))"

text \<open>
  \<^verbatim>\<open>CheckPrefixMatch\<close>: the loop over the prefix entries of a node, the two output
  parameters as a pair that is returned updated.
\<close>

fun CheckPrefixMatch_loop :: "PropertyEntry list \<Rightarrow> string \<Rightarrow> u32 \<times> u32 \<Rightarrow> u32 \<times> u32" where
  "CheckPrefixMatch_loop [] remaining_name (context_index, type_index) =
     (context_index, type_index)"
| "CheckPrefixMatch_loop (p # ps) remaining_name (context_index, type_index) =
     (if pe_namelen p > length remaining_name
      then CheckPrefixMatch_loop ps remaining_name (context_index, type_index)
      else if strncmp (pe_name p) remaining_name (pe_namelen p) = 0
      then (if pe_context_index p \<noteq> NO_INDEX then pe_context_index p else context_index,
            if pe_type_index p \<noteq> NO_INDEX then pe_type_index p else type_index)
      else CheckPrefixMatch_loop ps remaining_name (context_index, type_index))"

definition CheckPrefixMatch :: "string \<Rightarrow> TrieNode \<Rightarrow> u32 \<times> u32 \<Rightarrow> u32 \<times> u32" where
  "CheckPrefixMatch remaining_name trie_node idx =
     CheckPrefixMatch_loop (tn_prefixes trie_node) remaining_name idx"

lemma strchr_less: "strchr s c = Some i \<Longrightarrow> i < length s"
  by (induction s arbitrary: i) (auto split: if_splits)

text \<open>
  The descent loop of \<^verbatim>\<open>GetPropertyInfoIndexes\<close>: it returns the node the loop stopped at,
  the name that remains there and the indices accumulated on the way.
\<close>

function descend :: "TrieNode \<Rightarrow> string \<Rightarrow> u32 \<times> u32 \<Rightarrow> TrieNode \<times> string \<times> (u32 \<times> u32)" where
  "descend trie_node remaining_name (return_context_index, return_type_index) =
     (let sep = strchr remaining_name CHR ''.'';
          c1 = (if tn_context_index trie_node \<noteq> NO_INDEX
                then tn_context_index trie_node else return_context_index);
          t1 = (if tn_type_index trie_node \<noteq> NO_INDEX
                then tn_type_index trie_node else return_type_index);
          idx = CheckPrefixMatch remaining_name trie_node (c1, t1)
      in case sep of
           None \<Rightarrow> (trie_node, remaining_name, idx)
         | Some substr_size \<Rightarrow>
             (case FindChildForString trie_node remaining_name substr_size of
                None \<Rightarrow> (trie_node, remaining_name, idx)
              | Some child_node \<Rightarrow>
                  descend child_node (drop (substr_size + 1) remaining_name) idx))"
  by pat_completeness auto
termination
  by (relation "measure (\<lambda>(n, r, i). length r)") (auto dest!: strchr_less [OF sym])

text \<open>The loop over the exact matches of the node the descent stopped at.\<close>

fun exact_match_loop :: "PropertyEntry list \<Rightarrow> string \<Rightarrow> PropertyEntry option" where
  "exact_match_loop [] remaining_name = None"
| "exact_match_loop (e # es) remaining_name =
     (if strcmp (pe_name e) remaining_name = 0 then Some e
      else exact_match_loop es remaining_name)"

definition GetPropertyInfoIndexes :: "TrieNode \<Rightarrow> string \<Rightarrow> u32 \<times> u32" where
  "GetPropertyInfoIndexes root_node name =
     (case descend root_node name (NO_INDEX, NO_INDEX) of
        (trie_node, remaining_name, (return_context_index, return_type_index)) \<Rightarrow>
          (case exact_match_loop (tn_exact_matches trie_node) remaining_name of
             Some e \<Rightarrow>
               (if pe_context_index e \<noteq> NO_INDEX then pe_context_index e
                else return_context_index,
                if pe_type_index e \<noteq> NO_INDEX then pe_type_index e
                else return_type_index)
           | None \<Rightarrow>
               CheckPrefixMatch remaining_name trie_node
                 (return_context_index, return_type_index)))"

section \<open>The property area (\<^verbatim>\<open>prop_area.cpp\<close>, \<^verbatim>\<open>prop_info.cpp\<close>)\<close>

text \<open>
  The data region of an area is a store from offsets to the objects constructed there:
  trie nodes, entries and the blobs of long values. A pointer into the region is the
  offset of its object; \<open>None\<close> is the null pointer. Offset 0 holds the root node and
  also stands for "no link" in the four offset fields of a node.

  Modelled from the spec: \<^verbatim>\<open>prop_area.h\<close> and \<^verbatim>\<open>prop_info.h\<close>, which declare \<^verbatim>\<open>prop_bt\<close>,
  \<^verbatim>\<open>prop_info\<close> and \<^verbatim>\<open>prop_area\<close>, are not among the sources. A trie node is a length, four
  32-bit offsets and its inline name; an entry is the serial word, a union of the inline
  value buffer of \<open>PROP_VALUE_MAX\<close> bytes with the long form (legacy error string and
  offset of the blob, relative to the entry), and its inline name. The model keeps the
  long form's offset in a field of its own, beside the bytes of the union.
\<close>

record prop_bt =
  bt_namelen :: nat
  bt_prop :: nat
  bt_left :: nat
  bt_right :: nat
  bt_children :: nat
  bt_name :: string

record prop_info =
  pi_serial :: u32
  pi_value :: string
  pi_long_offset :: nat
  pi_name :: string

datatype obj = Bt prop_bt | Info prop_info | LongValue string

record prop_area =
  pa_bytes_used :: nat
  pa_serial :: u32
  pa_magic :: u32
  pa_version :: u32
  pa_dirty_backup :: string
  pa_data_size :: nat
  pa_data :: "nat \<Rightarrow> obj option"

definition PA_SIZE :: nat where
  "PA_SIZE = 128 * 1024"

definition PROP_AREA_MAGIC :: u32 where
  "PROP_AREA_MAGIC = 0x504f5250"

definition PROP_AREA_VERSION :: u32 where
  "PROP_AREA_VERSION = 0xfc6ed0ab"

definition sizeof_prop_bt :: nat where
  "sizeof_prop_bt = 20"

definition sizeof_prop_info :: nat where
  "sizeof_prop_info = 96"

text \<open>Memory that no constructor has written yet is zero-filled by the mapping.\<close>

definition zero_bt :: prop_bt where
  "zero_bt = \<lparr>bt_namelen = 0, bt_prop = 0, bt_left = 0, bt_right = 0, bt_children = 0,
     bt_name = []\<rparr>"

definition zero_info :: prop_info where
  "zero_info = \<lparr>pi_serial = 0, pi_value = replicate PROP_VALUE_MAX NUL,
     pi_long_offset = 0, pi_name = []\<rparr>"

text \<open>
  Modelled from the spec: the constructor of \<^verbatim>\<open>prop_area\<close> is in the missing header. A new
  area holds the root node at offset 0 and nothing else; the size of its header is a
  parameter.
\<close>

definition new_prop_area :: "nat \<Rightarrow> prop_area" where
  "new_prop_area sizeof_prop_area =
     \<lparr>pa_bytes_used = sizeof_prop_bt, pa_serial = 0, pa_magic = PROP_AREA_MAGIC,
      pa_version = PROP_AREA_VERSION, pa_dirty_backup = replicate PROP_VALUE_MAX NUL,
      pa_data_size = PA_SIZE - sizeof_prop_area,
      pa_data = (\<lambda>off. None)(0 := Some (Bt zero_bt))\<rparr>"

definition get_bt :: "prop_area \<Rightarrow> nat \<Rightarrow> prop_bt option" where
  "get_bt a off = (case pa_data a off of Some (Bt n) \<Rightarrow> Some n | _ \<Rightarrow> None)"

definition get_info :: "prop_area \<Rightarrow> nat \<Rightarrow> prop_info option" where
  "get_info a off = (case pa_data a off of Some (Info i) \<Rightarrow> Some i | _ \<Rightarrow> None)"

definition put_obj :: "prop_area \<Rightarrow> nat \<Rightarrow> obj \<Rightarrow> prop_area" where
  "put_obj a off x = a\<lparr>pa_data := (pa_data a)(off := Some x)\<rparr>"

text \<open>A store through a pointer to a node: the field of the node now at that offset.\<close>

definition upd_bt :: "prop_area \<Rightarrow> nat \<Rightarrow> (prop_bt \<Rightarrow> prop_bt) \<Rightarrow> prop_area" where
  "upd_bt a off f = (case get_bt a off of Some n \<Rightarrow> put_obj a off (Bt (f n)) | None \<Rightarrow> a)"

definition BIONIC_ALIGN :: "nat \<Rightarrow> nat \<Rightarrow> nat" where
  "BIONIC_ALIGN v alignment = ((v + alignment - 1) div alignment) * alignment"

definition allocate_obj :: "prop_area \<Rightarrow> nat \<Rightarrow> (nat \<times> prop_area) option" where
  "allocate_obj a sz =
     (let aligned = BIONIC_ALIGN sz 4
      in if pa_bytes_used a + aligned > pa_data_size a then None
         else Some (pa_bytes_used a, a\<lparr>pa_bytes_used := pa_bytes_used a + aligned\<rparr>))"

definition new_prop_bt :: "prop_area \<Rightarrow> string \<Rightarrow> nat \<Rightarrow> (nat \<times> prop_area) option" where
  "new_prop_bt a name namelen =
     (case allocate_obj a (sizeof_prop_bt + namelen + 1) of
        Some (new_offset, a') \<Rightarrow>
          Some (new_offset,
                put_obj a' new_offset
                  (Bt (zero_bt\<lparr>bt_namelen := namelen, bt_name := take namelen name\<rparr>)))
      | None \<Rightarrow> None)"

text \<open>The two constructors of \<^verbatim>\<open>prop_info\<close>, on zero-filled memory.\<close>

definition prop_info_short :: "string \<Rightarrow> nat \<Rightarrow> string \<Rightarrow> nat \<Rightarrow> prop_info" where
  "prop_info_short name namelen value valuelen =
     \<lparr>pi_serial = push_bit 24 (of_nat valuelen),
      pi_value = (memcpy (replicate PROP_VALUE_MAX NUL) value valuelen)[valuelen := NUL],
      pi_long_offset = 0,
      pi_name = take namelen name\<rparr>"

definition prop_info_long :: "string \<Rightarrow> nat \<Rightarrow> nat \<Rightarrow> prop_info" where
  "prop_info_long name namelen long_offset =
     (let error_value_len = length kLongLegacyError
      in \<lparr>pi_serial = push_bit 24 (of_nat error_value_len) OR kLongFlag,
          pi_value = memcpy (replicate PROP_VALUE_MAX NUL) (kLongLegacyError @ [NUL])
                       (length kLongLegacyError + 1),
          pi_long_offset = long_offset,
          pi_name = take namelen name\<rparr>)"

definition is_long :: "prop_info \<Rightarrow> bool" where
  "is_long pi = (pi_serial pi AND kLongFlag \<noteq> 0)"

text \<open>
  \<^verbatim>\<open>new_prop_info\<close> returns the null pointer when either allocation fails; the bytes of a
  first allocation that succeeded stay used.
\<close>

definition new_prop_info ::
  "prop_area \<Rightarrow> string \<Rightarrow> nat \<Rightarrow> string \<Rightarrow> nat \<Rightarrow> nat option \<times> prop_area" where
  "new_prop_info a name namelen value valuelen =
     (case allocate_obj a (sizeof_prop_info + namelen + 1) of
        None \<Rightarrow> (None, a)
      | Some (new_offset, a1) \<Rightarrow>
          if valuelen \<ge> PROP_VALUE_MAX then
            (case allocate_obj a1 (valuelen + 1) of
               None \<Rightarrow> (None, a1)
             | Some (long_value_offset, a2) \<Rightarrow>
                 (let a3 = put_obj a2 long_value_offset
                             (LongValue (take valuelen value @ [NUL]))
                  in (Some new_offset,
                      put_obj a3 new_offset
                        (Info (prop_info_long name namelen (long_value_offset - new_offset))))))
          else (Some new_offset,
                put_obj a1 new_offset (Info (prop_info_short name namelen value valuelen))))"

definition to_prop_obj :: "prop_area \<Rightarrow> nat \<Rightarrow> nat option" where
  "to_prop_obj a off = (if off > pa_data_size a then None else Some off)"

definition root_node :: "prop_area \<Rightarrow> nat option" where
  "root_node a = to_prop_obj a 0"

definition cmp_prop_name :: "string \<Rightarrow> nat \<Rightarrow> string \<Rightarrow> nat \<Rightarrow> int" where
  "cmp_prop_name one one_len two two_len =
     (if one_len < two_len then - 1
      else if one_len > two_len then 1
      else strncmp one two one_len)"

text \<open>
  The loop of \<^verbatim>\<open>find_prop_bt\<close> follows offsets stored in the area, so the model bounds its
  iterations by a fuel. The result \<open>None\<close> says that the fuel ran out or that an offset
  held no object of the type the code reads there; \<open>Some (p, a')\<close> is the returned pointer
  and the area after the call.
\<close>

fun find_prop_bt ::
  "nat \<Rightarrow> prop_area \<Rightarrow> nat option \<Rightarrow> string \<Rightarrow> nat \<Rightarrow> bool \<Rightarrow> (nat option \<times> prop_area) option" where
  "find_prop_bt 0 a current name namelen alloc_if_needed = None"
| "find_prop_bt (Suc fuel) a current name namelen alloc_if_needed =
     (case current of
        None \<Rightarrow> Some (None, a)
      | Some cur \<Rightarrow>
          (case get_bt a cur of
             None \<Rightarrow> None
           | Some node \<Rightarrow>
               (let ret = cmp_prop_name name namelen (bt_name node) (bt_namelen node)
                in if ret = 0 then Some (Some cur, a)
                   else if ret < 0 then
                     (if bt_left node \<noteq> 0
                      then find_prop_bt fuel a (to_prop_obj a (bt_left node)) name namelen
                             alloc_if_needed
                      else if \<not> alloc_if_needed then Some (None, a)
                      else (case new_prop_bt a name namelen of
                              None \<Rightarrow> Some (None, a)
                            | Some (new_offset, a') \<Rightarrow>
                                Some (Some new_offset,
                                      upd_bt a' cur (\<lambda>n. n\<lparr>bt_left := new_offset\<rparr>))))
                   else
                     (if bt_right node \<noteq> 0
                      then find_prop_bt fuel a (to_prop_obj a (bt_right node)) name namelen
                             alloc_if_needed
                      else if \<not> alloc_if_needed then Some (None, a)
                      else (case new_prop_bt a name namelen of
                              None \<Rightarrow> Some (None, a)
                            | Some (new_offset, a') \<Rightarrow>
                                Some (Some new_offset,
                                      upd_bt a' cur (\<lambda>n. n\<lparr>bt_right := new_offset\<rparr>)))))))"

text \<open>
  The loop of \<^verbatim>\<open>traverse_trie\<close> consumes one segment of the name per iteration, so it
  ends by itself; the fuel is for the calls of \<open>find_prop_bt\<close>.
\<close>

definition children_root ::
  "prop_area \<Rightarrow> nat \<Rightarrow> prop_bt \<Rightarrow> string \<Rightarrow> nat \<Rightarrow> bool \<Rightarrow> nat option \<times> prop_area" where
  "children_root a current node remaining_name substr_size alloc_if_needed =
     (if bt_children node \<noteq> 0 then (to_prop_obj a (bt_children node), a)
      else if alloc_if_needed then
        (case new_prop_bt a remaining_name substr_size of
           None \<Rightarrow> (None, a)
         | Some (new_offset, a') \<Rightarrow>
             (Some new_offset, upd_bt a' current (\<lambda>n. n\<lparr>bt_children := new_offset\<rparr>)))
      else (None, a))"

function traverse_loop ::
  "nat \<Rightarrow> prop_area \<Rightarrow> nat \<Rightarrow> string \<Rightarrow> bool \<Rightarrow> (nat option \<times> prop_area) option" where
  "traverse_loop fuel a current remaining_name alloc_if_needed =
     (let sep = strchr remaining_name CHR ''.'';
          want_subtree = (sep \<noteq> None);
          substr_size = (case sep of Some i \<Rightarrow> i | None \<Rightarrow> length remaining_name)
      in if substr_size = 0 then Some (None, a)
         else
           (case get_bt a current of
              None \<Rightarrow> None
            | Some node \<Rightarrow>
                (case children_root a current node remaining_name substr_size alloc_if_needed of
                   (None, a1) \<Rightarrow> Some (None, a1)
                 | (Some root, a1) \<Rightarrow>
                     (case find_prop_bt fuel a1 (Some root) remaining_name substr_size
                             alloc_if_needed of
                        None \<Rightarrow> None
                      | Some (None, a2) \<Rightarrow> Some (None, a2)
                      | Some (Some current', a2) \<Rightarrow>
                          if \<not> want_subtree then Some (Some current', a2)
                          else traverse_loop fuel a2 current'
                                 (drop (substr_size + 1) remaining_name) alloc_if_needed))))"
  by pat_completeness auto
termination
  by (relation "measure (\<lambda>(fuel, a, current, r, alloc). length r)")
     (auto dest!: strchr_less split: option.splits)

definition traverse_trie ::
  "nat \<Rightarrow> prop_area \<Rightarrow> nat option \<Rightarrow> string \<Rightarrow> bool \<Rightarrow> (nat option \<times> prop_area) option" where
  "traverse_trie fuel a trie name alloc_if_needed =
     (case trie of
        None \<Rightarrow> Some (None, a)
      | Some t \<Rightarrow> traverse_loop fuel a t name alloc_if_needed)"

definition find_property ::
  "nat \<Rightarrow> prop_area \<Rightarrow> nat option \<Rightarrow> string \<Rightarrow> nat \<Rightarrow> string \<Rightarrow> nat \<Rightarrow> bool \<Rightarrow>
   (nat option \<times> prop_area) option" where
  "find_property fuel a trie name namelen value valuelen alloc_if_needed =
     (case traverse_trie fuel a trie name alloc_if_needed of
        None \<Rightarrow> None
      | Some (None, a1) \<Rightarrow> Some (None, a1)
      | Some (Some current, a1) \<Rightarrow>
          (case get_bt a1 current of
             None \<Rightarrow> None
           | Some node \<Rightarrow>
               if bt_prop node \<noteq> 0 then Some (to_prop_obj a1 (bt_prop node), a1)
               else if alloc_if_needed then
                 (case new_prop_info a1 name namelen value valuelen of
                    (None, a2) \<Rightarrow> Some (None, a2)
                  | (Some new_offset, a2) \<Rightarrow>
                      Some (Some new_offset,
                            upd_bt a2 current (\<lambda>n. n\<lparr>bt_prop := new_offset\<rparr>)))
               else Some (None, a1)))"

text \<open>
  \<^verbatim>\<open>foreach_property\<close>: the callback is a function on the cookie. The \<^verbatim>\<open>int err\<close> that takes
  the \<^verbatim>\<open>bool\<close> of a recursive call is 0 or 1.
\<close>

definition int_of_bool :: "bool \<Rightarrow> int" where
  "int_of_bool b = (if b then 1 else 0)"

fun foreach_property ::
  "nat \<Rightarrow> prop_area \<Rightarrow> nat option \<Rightarrow> (nat \<Rightarrow> 'c \<Rightarrow> 'c) \<Rightarrow> 'c \<Rightarrow> (bool \<times> 'c) option" where
  "foreach_property 0 a trie propfn cookie = None"
| "foreach_property (Suc fuel) a trie propfn cookie =
     (case trie of
        None \<Rightarrow> Some (False, cookie)
      | Some t \<Rightarrow>
          (case get_bt a t of
             None \<Rightarrow> None
           | Some node \<Rightarrow>
               (case (if bt_left node \<noteq> 0
                      then foreach_property fuel a (to_prop_obj a (bt_left node)) propfn cookie
                      else Some (True, cookie)) of
                  None \<Rightarrow> None
                | Some (ok1, c1) \<Rightarrow>
                    if bt_left node \<noteq> 0 \<and> int_of_bool ok1 < 0 then Some (False, c1)
                    else
                      (case (if bt_prop node \<noteq> 0
                             then map_option (\<lambda>info. propfn info c1)
                                    (to_prop_obj a (bt_prop node))
                             else Some c1) of
                         None \<Rightarrow> Some (False, c1)
                       | Some c2 \<Rightarrow>
                           (case (if bt_children node \<noteq> 0
                                  then foreach_property fuel a
                                         (to_prop_obj a (bt_children node)) propfn c2
                                  else Some (True, c2)) of
                              None \<Rightarrow> None
                            | Some (ok3, c3) \<Rightarrow>
                                if bt_children node \<noteq> 0 \<and> int_of_bool ok3 < 0
                                then Some (False, c3)
                                else
                                  (case (if bt_right node \<noteq> 0
                                         then foreach_property fuel a
                                                (to_prop_obj a (bt_right node)) propfn c3
                                         else Some (True, c3)) of
                                     None \<Rightarrow> None
                                   | Some (ok4, c4) \<Rightarrow>
                                       if bt_right node \<noteq> 0 \<and> int_of_bool ok4 < 0
                                       then Some (False, c4)
                                       else Some (True, c4)))))))"

definition prop_area_find :: "nat \<Rightarrow> prop_area \<Rightarrow> string \<Rightarrow> nat option option" where
  "prop_area_find fuel a name =
     map_option fst (find_property fuel a (root_node a) name (length name) [] 0 False)"

definition prop_area_add ::
  "nat \<Rightarrow> prop_area \<Rightarrow> string \<Rightarrow> nat \<Rightarrow> string \<Rightarrow> nat \<Rightarrow> (bool \<times> prop_area) option" where
  "prop_area_add fuel a name namelen value valuelen =
     map_option (\<lambda>(p, a'). (p \<noteq> None, a'))
       (find_property fuel a (root_node a) name namelen value valuelen True)"

definition prop_area_foreach ::
  "nat \<Rightarrow> prop_area \<Rightarrow> (nat \<Rightarrow> 'c \<Rightarrow> 'c) \<Rightarrow> 'c \<Rightarrow> (bool \<times> 'c) option" where
  "prop_area_foreach fuel a propfn cookie = foreach_property fuel a (root_node a) propfn cookie"

text \<open>
  \<^verbatim>\<open>prune_trie\<close>: each of the three links is read from the area as the calls before it
  left it; a link whose subtree was wiped is cleared.
\<close>

definition wipe_bt :: "prop_area \<Rightarrow> nat \<Rightarrow> prop_area" where
  "wipe_bt a node = put_obj a node (Bt zero_bt)"

fun prune_trie :: "nat \<Rightarrow> prop_area \<Rightarrow> nat option \<Rightarrow> (bool \<times> prop_area) option" where
  "prune_trie 0 a node = None"
| "prune_trie (Suc fuel) a node =
     (case node of
        None \<Rightarrow> None
      | Some nd \<Rightarrow>
          (case get_bt a nd of
             None \<Rightarrow> None
           | Some n0 \<Rightarrow>
               (case (if bt_children n0 \<noteq> 0
                      then (case prune_trie fuel a (to_prop_obj a (bt_children n0)) of
                              None \<Rightarrow> None
                            | Some (True, a') \<Rightarrow>
                                Some (True, upd_bt a' nd (\<lambda>n. n\<lparr>bt_children := 0\<rparr>))
                            | Some (False, a') \<Rightarrow> Some (False, a'))
                      else Some (True, a)) of
                  None \<Rightarrow> None
                | Some (leaf1, a1) \<Rightarrow>
                    (case get_bt a1 nd of
                       None \<Rightarrow> None
                     | Some n1 \<Rightarrow>
                         (case (if bt_left n1 \<noteq> 0
                                then (case prune_trie fuel a1 (to_prop_obj a1 (bt_left n1)) of
                                        None \<Rightarrow> None
                                      | Some (True, a') \<Rightarrow>
                                          Some (leaf1, upd_bt a' nd (\<lambda>n. n\<lparr>bt_left := 0\<rparr>))
                                      | Some (False, a') \<Rightarrow> Some (False, a'))
                                else Some (leaf1, a1)) of
                            None \<Rightarrow> None
                          | Some (leaf2, a2) \<Rightarrow>
                              (case get_bt a2 nd of
                                 None \<Rightarrow> None
                               | Some n2 \<Rightarrow>
                                   (case (if bt_right n2 \<noteq> 0
                                          then (case prune_trie fuel a2
                                                       (to_prop_obj a2 (bt_right n2)) of
                                                  None \<Rightarrow> None
                                                | Some (True, a') \<Rightarrow>
                                                    Some (leaf2,
                                                      upd_bt a' nd (\<lambda>n. n\<lparr>bt_right := 0\<rparr>))
                                                | Some (False, a') \<Rightarrow> Some (False, a'))
                                          else Some (leaf2, a2)) of
                                      None \<Rightarrow> None
                                    | Some (is_leaf, a3) \<Rightarrow>
                                        (case get_bt a3 nd of
                                           None \<Rightarrow> None
                                         | Some n3 \<Rightarrow>
                                             if is_leaf \<and> bt_prop n3 = 0
                                             then Some (True, wipe_bt a3 nd)
                                             else Some (False, a3)))))))))"

text \<open>
  \<^verbatim>\<open>remove\<close>. The blob of a long entry is the object at the entry's offset plus its long
  offset; \<^verbatim>\<open>memset(value, 0, strlen(value))\<close> clears its string. The result is \<open>None\<close> also
  when the entry carries the long flag and no blob is there: what the code writes to then
  is outside this store.
\<close>

definition clear_long_value :: "prop_area \<Rightarrow> nat \<Rightarrow> prop_info \<Rightarrow> prop_area option" where
  "clear_long_value a p info =
     (case pa_data a (p + pi_long_offset info) of
        Some (LongValue bytes) \<Rightarrow>
          Some (put_obj a (p + pi_long_offset info)
                  (LongValue (replicate (strlen bytes) NUL @ drop (strlen bytes) bytes)))
      | _ \<Rightarrow> None)"

definition prop_area_remove :: "nat \<Rightarrow> prop_area \<Rightarrow> string \<Rightarrow> bool \<Rightarrow> (bool \<times> prop_area) option" where
  "prop_area_remove fuel a name prune =
     (case traverse_trie fuel a (root_node a) name False of
        None \<Rightarrow> None
      | Some (None, a1) \<Rightarrow> Some (False, a1)
      | Some (Some node, a1) \<Rightarrow>
          (case get_bt a1 node of
             None \<Rightarrow> None
           | Some n \<Rightarrow>
               if bt_prop n = 0 then Some (False, a1)
               else
                 (case to_prop_obj a1 (bt_prop n) of
                    None \<Rightarrow> None
                  | Some p \<Rightarrow>
                      (case get_info a1 p of
                         None \<Rightarrow> None
                       | Some info \<Rightarrow>
                           (let a2 = upd_bt a1 node (\<lambda>n. n\<lparr>bt_prop := 0\<rparr>)
                            in case (if is_long info then clear_long_value a2 p info
                                     else Some a2) of
                                 None \<Rightarrow> None
                               | Some a3 \<Rightarrow>
                                   (let a4 = put_obj a3 p (Info zero_info)
                                    in if prune
                                       then map_option (\<lambda>(r, a5). (True, a5))
                                              (prune_trie fuel a4 (root_node a4))
                                       else Some (True, a4)))))))"

section \<open>The store (\<^verbatim>\<open>system_properties.cpp\<close>, \<^verbatim>\<open>contexts_serialized.cpp\<close>)\<close>

text \<open>
  The state of \<^verbatim>\<open>SystemProperties\<close> with \<^verbatim>\<open>ContextsSerialized\<close>, the router that
  \<^verbatim>\<open>AreaInit\<close> installs: the flags \<^verbatim>\<open>initialized_\<close> and \<^verbatim>\<open>rw_\<close>, the root of the binary index,
  the area each context node has mapped (\<open>None\<close> for a null \<^verbatim>\<open>pa_\<close>) and the serial area.
  Mapping a file is outside the program: a node that has no area stays without one, as
  when \<^verbatim>\<open>ContextNode::Open\<close> fails. After \<^verbatim>\<open>AreaInit\<close> every node has its area.
  A pointer to an entry is the index of its context node and its offset in that area.
\<close>

record SystemProperties =
  sp_initialized :: bool
  sp_rw :: bool
  sp_property_info :: TrieNode
  sp_context_nodes :: "prop_area option list"
  sp_serial_prop_area :: "prop_area option"

type_synonym prop_info_ptr = "nat \<times> nat"

definition GetPropAreaForName :: "SystemProperties \<Rightarrow> string \<Rightarrow> nat option" where
  "GetPropAreaForName sp name =
     (let index = fst (GetPropertyInfoIndexes (sp_property_info sp) name)
      in if index = NO_INDEX \<or> unat index \<ge> length (sp_context_nodes sp) then None
         else (case sp_context_nodes sp ! unat index of
                 None \<Rightarrow> None
               | Some a \<Rightarrow> Some (unat index)))"

definition context_area :: "SystemProperties \<Rightarrow> nat \<Rightarrow> prop_area option" where
  "context_area sp i =
     (if i < length (sp_context_nodes sp) then sp_context_nodes sp ! i else None)"

definition set_context_area :: "SystemProperties \<Rightarrow> nat \<Rightarrow> prop_area \<Rightarrow> SystemProperties" where
  "set_context_area sp i a = sp\<lparr>sp_context_nodes := (sp_context_nodes sp)[i := Some a]\<rparr>"

definition deref_info :: "SystemProperties \<Rightarrow> prop_info_ptr \<Rightarrow> prop_info option" where
  "deref_info sp pi = (case context_area sp (fst pi) of
                         None \<Rightarrow> None
                       | Some a \<Rightarrow> get_info a (snd pi))"

definition store_info :: "SystemProperties \<Rightarrow> prop_info_ptr \<Rightarrow> prop_info \<Rightarrow> SystemProperties" where
  "store_info sp pi info =
     (case context_area sp (fst pi) of
        None \<Rightarrow> sp
      | Some a \<Rightarrow> set_context_area sp (fst pi) (put_obj a (snd pi) (Info info)))"

definition bump_serial :: "SystemProperties \<Rightarrow> SystemProperties" where
  "bump_serial sp =
     sp\<lparr>sp_serial_prop_area :=
          map_option (\<lambda>a. a\<lparr>pa_serial := pa_serial a + 1\<rparr>) (sp_serial_prop_area sp)\<rparr>"

definition SystemProperties_Find ::
  "nat \<Rightarrow> SystemProperties \<Rightarrow> string \<Rightarrow> prop_info_ptr option option" where
  "SystemProperties_Find fuel sp name =
     (if \<not> sp_initialized sp then Some None
      else (case GetPropAreaForName sp name of
              None \<Rightarrow> Some None
            | Some i \<Rightarrow>
                (case context_area sp i of
                   None \<Rightarrow> Some None
                 | Some pa \<Rightarrow>
                     map_option (map_option (\<lambda>off. (i, off))) (prop_area_find fuel pa name))))"

text \<open>
  \<^verbatim>\<open>ReadMutablePropertyValue\<close> with no writer at work: the serial read after the copy is
  the serial read before it, and the loop ends after one round. \<open>value\<close> is the caller's
  buffer; the result is the serial and the buffer after the copy. \<open>None\<close>: the pointer
  holds no entry, or the entry is dirty and its name has no area.
\<close>

definition ReadMutablePropertyValue ::
  "SystemProperties \<Rightarrow> prop_info_ptr \<Rightarrow> string \<Rightarrow> (u32 \<times> string) option" where
  "ReadMutablePropertyValue sp pi value =
     (case deref_info sp pi of
        None \<Rightarrow> None
      | Some info \<Rightarrow>
          (let serial = pi_serial info;
               len = unat (SERIAL_VALUE_LEN serial)
           in if SERIAL_DIRTY serial \<noteq> 0 then
                (case GetPropAreaForName sp (pi_name info) of
                   None \<Rightarrow> None
                 | Some j \<Rightarrow>
                     (case context_area sp j of
                        None \<Rightarrow> None
                      | Some pa \<Rightarrow> Some (serial, memcpy value (pa_dirty_backup pa) (len + 1))))
              else Some (serial, memcpy value (pi_value info) (len + 1))))"

text \<open>
  \<^verbatim>\<open>Read\<close>: \<open>name\<close> is the caller's name buffer, \<open>None\<close> for a null pointer. The result is
  the returned length and the two buffers.
\<close>

definition SystemProperties_Read ::
  "SystemProperties \<Rightarrow> prop_info_ptr \<Rightarrow> string option \<Rightarrow> string \<Rightarrow>
   (int \<times> string option \<times> string) option" where
  "SystemProperties_Read sp pi name value =
     (case ReadMutablePropertyValue sp pi value of
        None \<Rightarrow> None
      | Some (serial, value') \<Rightarrow>
          (case deref_info sp pi of
             None \<Rightarrow> None
           | Some info \<Rightarrow>
               Some (uint (SERIAL_VALUE_LEN serial),
                     map_option (\<lambda>buf. strlcpy buf (pi_name info) PROP_NAME_MAX) name,
                     value')))"

text \<open>The string \<^verbatim>\<open>long_value()\<close> points to: the blob at the entry's offset plus its long offset.\<close>

definition long_value :: "SystemProperties \<Rightarrow> prop_info_ptr \<Rightarrow> prop_info \<Rightarrow> string option" where
  "long_value sp pi info =
     (case context_area sp (fst pi) of
        None \<Rightarrow> None
      | Some a \<Rightarrow>
          (case pa_data a (snd pi + pi_long_offset info) of
             Some (LongValue bytes) \<Rightarrow> Some (c_str bytes)
           | _ \<Rightarrow> None))"

text \<open>
  \<^verbatim>\<open>ReadCallback\<close>: the callback is a function of the cookie, the name, the value string
  and the serial, and returns the cookie.
\<close>

definition SystemProperties_ReadCallback ::
  "SystemProperties \<Rightarrow> prop_info_ptr \<Rightarrow> ('c \<Rightarrow> string \<Rightarrow> string \<Rightarrow> u32 \<Rightarrow> 'c) \<Rightarrow> 'c \<Rightarrow> 'c option" where
  "SystemProperties_ReadCallback sp pi callback cookie =
     (case deref_info sp pi of
        None \<Rightarrow> None
      | Some info \<Rightarrow>
          if is_read_only (pi_name info) then
            (let serial = pi_serial info
             in if is_long info
                then map_option (\<lambda>v. callback cookie (pi_name info) v serial)
                       (long_value sp pi info)
                else Some (callback cookie (pi_name info) (c_str (pi_value info)) serial))
          else
            (case ReadMutablePropertyValue sp pi (replicate PROP_VALUE_MAX NUL) of
               None \<Rightarrow> None
             | Some (serial, value_buf) \<Rightarrow>
                 Some (callback cookie (pi_name info) (c_str value_buf) serial)))"

definition SystemProperties_Get ::
  "nat \<Rightarrow> SystemProperties \<Rightarrow> string \<Rightarrow> string \<Rightarrow> (int \<times> string) option" where
  "SystemProperties_Get fuel sp name value =
     (case SystemProperties_Find fuel sp name of
        None \<Rightarrow> None
      | Some (Some pi) \<Rightarrow>
          map_option (\<lambda>(len, name', value'). (len, value'))
            (SystemProperties_Read sp pi None value)
      | Some None \<Rightarrow> Some (0, value[0 := NUL]))"

text \<open>
  \<^verbatim>\<open>Update\<close> writes the entry three times: the serial with the dirty bit set, the new
  value, the new serial. The three stores are the steps below, so that the entry can be
  looked at between them.
\<close>

definition Update_mark_dirty :: "prop_info \<Rightarrow> prop_info" where
  "Update_mark_dirty info = info\<lparr>pi_serial := pi_serial info OR 1\<rparr>"

definition Update_copy_value :: "string \<Rightarrow> nat \<Rightarrow> prop_info \<Rightarrow> prop_info" where
  "Update_copy_value value len info = info\<lparr>pi_value := strlcpy (pi_value info) value (len + 1)\<rparr>"

definition Update_publish :: "nat \<Rightarrow> prop_info \<Rightarrow> prop_info" where
  "Update_publish len info =
     info\<lparr>pi_serial := push_bit 24 (of_nat len) OR ((pi_serial info + 1) AND 0xffffff)\<rparr>"

definition Update_entry :: "string \<Rightarrow> nat \<Rightarrow> prop_info \<Rightarrow> prop_info" where
  "Update_entry value len info =
     Update_publish len (Update_copy_value value len (Update_mark_dirty info))"

definition backup_value :: "SystemProperties \<Rightarrow> nat \<Rightarrow> prop_info \<Rightarrow> SystemProperties" where
  "backup_value sp j info =
     (case context_area sp j of
        None \<Rightarrow> sp
      | Some pa \<Rightarrow>
          set_context_area sp j
            (pa\<lparr>pa_dirty_backup :=
                  memcpy (pa_dirty_backup pa) (pi_value info)
                    (unat (SERIAL_VALUE_LEN (pi_serial info)) + 1)\<rparr>))"

definition SystemProperties_Update ::
  "SystemProperties \<Rightarrow> prop_info_ptr \<Rightarrow> string \<Rightarrow> nat \<Rightarrow> (int \<times> SystemProperties) option" where
  "SystemProperties_Update sp pi value len =
     (if len \<ge> PROP_VALUE_MAX then Some (- 1, sp)
      else if \<not> sp_initialized sp then Some (- 1, sp)
      else if \<not> sp_rw sp then Some (- 1, sp)
      else if sp_serial_prop_area sp = None then Some (- 1, sp)
      else (case deref_info sp pi of
              None \<Rightarrow> None
            | Some info0 \<Rightarrow>
                (case GetPropAreaForName sp (pi_name info0) of
                   None \<Rightarrow> Some (- 1, sp)
                 | Some j \<Rightarrow>
                     (let sp1 = backup_value sp j info0
                      in case deref_info sp1 pi of
                           None \<Rightarrow> None
                         | Some info \<Rightarrow>
                             Some (0, bump_serial
                                        (store_info sp1 pi (Update_entry value len info)))))))"

definition SystemProperties_Add ::
  "nat \<Rightarrow> SystemProperties \<Rightarrow> string \<Rightarrow> nat \<Rightarrow> string \<Rightarrow> nat \<Rightarrow>
   (int \<times> SystemProperties) option" where
  "SystemProperties_Add fuel sp name namelen value valuelen =
     (if valuelen \<ge> PROP_VALUE_MAX \<and> \<not> is_read_only name then Some (- 1, sp)
      else if namelen < 1 then Some (- 1, sp)
      else if \<not> sp_initialized sp then Some (- 1, sp)
      else if \<not> sp_rw sp then Some (- 1, sp)
      else if sp_serial_prop_area sp = None then Some (- 1, sp)
      else (case GetPropAreaForName sp name of
              None \<Rightarrow> Some (- 1, sp)
            | Some i \<Rightarrow>
                (case context_area sp i of
                   None \<Rightarrow> Some (- 1, sp)
                 | Some pa \<Rightarrow>
                     (case prop_area_add fuel pa name namelen value valuelen of
                        None \<Rightarrow> None
                      | Some (ret, pa') \<Rightarrow>
                          if \<not> ret then Some (- 1, set_context_area sp i pa')
                          else Some (0, bump_serial (set_context_area sp i pa'))))))"

definition SystemProperties_Delete ::
  "nat \<Rightarrow> SystemProperties \<Rightarrow> string \<Rightarrow> bool \<Rightarrow> (int \<times> SystemProperties) option" where
  "SystemProperties_Delete fuel sp name prune =
     (if \<not> sp_initialized sp then Some (- 1, sp)
      else if \<not> sp_rw sp then Some (- 1, sp)
      else if sp_serial_prop_area sp = None then Some (- 1, sp)
      else (case GetPropAreaForName sp name of
              None \<Rightarrow> Some (- 1, sp)
            | Some i \<Rightarrow>
                (case context_area sp i of
                   None \<Rightarrow> Some (- 1, sp)
                 | Some pa \<Rightarrow>
                     (case prop_area_remove fuel pa name prune of
                        None \<Rightarrow> None
                      | Some (ret, pa') \<Rightarrow>
                          if \<not> ret then Some (- 1, set_context_area sp i pa')
                          else Some (0, bump_serial (set_context_area sp i pa'))))))"

text \<open>
  \<^verbatim>\<open>ContextsSerialized::ForEach\<close>: the nodes in index order, each node that has an area
  traversed from its root; the \<^verbatim>\<open>bool\<close> of the traversal is dropped.
\<close>

fun ForEach_loop ::
  "nat \<Rightarrow> prop_area option list \<Rightarrow> nat \<Rightarrow> (prop_info_ptr \<Rightarrow> 'c \<Rightarrow> 'c) \<Rightarrow> 'c \<Rightarrow> 'c option" where
  "ForEach_loop fuel [] i propfn cookie = Some cookie"
| "ForEach_loop fuel (node # nodes) i propfn cookie =
     (case node of
        None \<Rightarrow> ForEach_loop fuel nodes (Suc i) propfn cookie
      | Some pa \<Rightarrow>
          (case prop_area_foreach fuel pa (\<lambda>off. propfn (i, off)) cookie of
             None \<Rightarrow> None
           | Some (ok, cookie') \<Rightarrow> ForEach_loop fuel nodes (Suc i) propfn cookie'))"

definition ForEach ::
  "nat \<Rightarrow> SystemProperties \<Rightarrow> (prop_info_ptr \<Rightarrow> 'c \<Rightarrow> 'c) \<Rightarrow> 'c \<Rightarrow> 'c option" where
  "ForEach fuel sp propfn cookie = ForEach_loop fuel (sp_context_nodes sp) 0 propfn cookie"

definition SystemProperties_Foreach ::
  "nat \<Rightarrow> SystemProperties \<Rightarrow> (prop_info_ptr \<Rightarrow> 'c \<Rightarrow> 'c) \<Rightarrow> 'c \<Rightarrow> (int \<times> 'c) option" where
  "SystemProperties_Foreach fuel sp propfn cookie =
     (if \<not> sp_initialized sp then Some (- 1, cookie)
      else map_option (\<lambda>c. (0, c)) (ForEach fuel sp propfn cookie))"

text \<open>The local struct \<^verbatim>\<open>find_nth\<close> of \<^verbatim>\<open>FindNth\<close> and its callback \<^verbatim>\<open>fn\<close>.\<close>

record find_nth =
  sought :: u32
  current :: u32
  result :: "prop_info_ptr option"

definition find_nth_fn :: "prop_info_ptr \<Rightarrow> find_nth \<Rightarrow> find_nth" where
  "find_nth_fn pi self =
     (let self' = self\<lparr>current := current self + 1\<rparr>
      in if current self = sought self then self'\<lparr>result := Some pi\<rparr> else self')"

definition SystemProperties_FindNth ::
  "nat \<Rightarrow> SystemProperties \<Rightarrow> u32 \<Rightarrow> prop_info_ptr option option" where
  "SystemProperties_FindNth fuel sp n =
     map_option (\<lambda>(r, state). result state)
       (SystemProperties_Foreach fuel sp find_nth_fn
          \<lparr>sought = n, current = 0, result = None\<rparr>)"

section \<open>The v1 wire client (\<^verbatim>\<open>system_property_set.cpp\<close>)\<close>

text \<open>
  What the socket calls of \<^verbatim>\<open>send_prop_msg\<close> return is outside the program: whether the
  connection is valid and its last error, the byte count of \<^verbatim>\<open>send\<close>, the result of the
  250 ms \<^verbatim>\<open>poll\<close> and the \<^verbatim>\<open>revents\<close> it reports.
\<close>

record prop_msg =
  cmd :: u32
  msg_name :: string
  msg_value :: string

record socket_calls =
  connection_valid :: bool
  connection_last_error :: int
  num_bytes :: int
  poll_result :: int
  revents :: "16 word"

definition sizeof_prop_msg :: int where
  "sizeof_prop_msg = 4 + int PROP_NAME_MAX + int PROP_VALUE_MAX"

definition POLLHUP :: "16 word" where
  "POLLHUP = 0x10"

definition send_prop_msg :: "prop_msg \<Rightarrow> socket_calls \<Rightarrow> int" where
  "send_prop_msg msg env =
     (if \<not> connection_valid env then connection_last_error env
      else if num_bytes env = sizeof_prop_msg then
        (if poll_result env = 1 \<and> revents env AND POLLHUP \<noteq> 0 then 0 else 0)
      else - 1)"

declare descend.simps [simp del] Find_loop.simps [simp del] traverse_loop.simps [simp del]

section \<open>The value invariant of a short-form entry\<close>


section \<open>An example store\<close>

text \<open>
  One context, to which the index routes every name, holding one entry at offset 20.
\<close>

definition example_index :: TrieNode where
  "example_index = TrieNode [] 0 NO_INDEX [] [] []"

definition example_store :: SystemProperties where
  "example_store =
     \<lparr>sp_initialized = True, sp_rw = True, sp_property_info = example_index,
      sp_context_nodes =
        [Some (put_obj (new_prop_area 128) 20 (Info (prop_info_short ''a.b'' 3 ''one'' 3)))],
      sp_serial_prop_area = Some (new_prop_area 128)\<rparr>"

section \<open>Example indexes\<close>




section \<open>Well-formed areas\<close>

text \<open>
  The areas the code builds from a new area. Every object lies below \<open>pa_bytes_used\<close>,
  which the data region bounds; offset 0 holds the root; every link of a node is 0 or the
  offset, above the node's own, of an object of the type the code reads there: a node for
  \<^verbatim>\<open>left\<close>, \<^verbatim>\<open>right\<close> and \<^verbatim>\<open>children\<close>, an entry for \<^verbatim>\<open>prop\<close>; an entry with the long flag has
  its blob; the recorded length of a node's name is the length of the name.
\<close>

definition get_blob :: "prop_area \<Rightarrow> nat \<Rightarrow> string option" where
  "get_blob a off = (case pa_data a off of Some (LongValue bytes) \<Rightarrow> Some bytes | _ \<Rightarrow> None)"

definition link_ok :: "prop_area \<Rightarrow> nat \<Rightarrow> nat \<Rightarrow> bool" where
  "link_ok a off l = (l = 0 \<or> (off < l \<and> get_bt a l \<noteq> None))"

definition entry_ok :: "prop_area \<Rightarrow> nat \<Rightarrow> bool" where
  "entry_ok a p =
     (case get_info a p of
        None \<Rightarrow> False
      | Some info \<Rightarrow> is_long info \<longrightarrow> get_blob a (p + pi_long_offset info) \<noteq> None)"

definition prop_ok :: "prop_area \<Rightarrow> nat \<Rightarrow> nat \<Rightarrow> bool" where
  "prop_ok a off p = (p = 0 \<or> (off < p \<and> entry_ok a p))"

definition node_ok :: "prop_area \<Rightarrow> nat \<Rightarrow> prop_bt \<Rightarrow> bool" where
  "node_ok a off n =
     (link_ok a off (bt_left n) \<and> link_ok a off (bt_right n) \<and>
      link_ok a off (bt_children n) \<and> prop_ok a off (bt_prop n) \<and>
      bt_namelen n = length (bt_name n))"

definition wf_area :: "prop_area \<Rightarrow> bool" where
  "wf_area a =
     (pa_bytes_used a \<le> pa_data_size a \<and>
      (\<forall>off. pa_data a off \<noteq> None \<longrightarrow> off < pa_bytes_used a) \<and>
      get_bt a 0 \<noteq> None \<and>
      (\<forall>off n. get_bt a off = Some n \<longrightarrow> node_ok a off n))"

section \<open>Names and their segments\<close>

text \<open>The segments of a name, split at the dots.\<close>

fun segments :: "string \<Rightarrow> string list" where
  "segments [] = [[]]"
| "segments (c # cs) =
     (if c = CHR ''.'' then [] # segments cs
      else (case segments cs of s # ss \<Rightarrow> (c # s) # ss | [] \<Rightarrow> [[c]]))"

text \<open>A name with an empty segment: a leading dot, a trailing dot or two consecutive dots.\<close>

definition has_empty_segment :: "string \<Rightarrow> bool" where
  "has_empty_segment name =
     (name \<noteq> [] \<and>
      (hd name = CHR ''.'' \<or> last name = CHR ''.'' \<or> (\<exists>xs ys. name = xs @ ''..'' @ ys)))"

section \<open>Sequences of operations on an area\<close>

datatype area_op =
  Add string nat string nat
| Remove string bool

fun apply_op :: "nat \<Rightarrow> area_op \<Rightarrow> prop_area \<Rightarrow> (bool \<times> prop_area) option" where
  "apply_op fuel (Add name namelen value valuelen) a =
     prop_area_add fuel a name namelen value valuelen"
| "apply_op fuel (Remove name prune) a = prop_area_remove fuel a name prune"

fun apply_ops :: "nat \<Rightarrow> area_op list \<Rightarrow> prop_area \<Rightarrow> prop_area option" where
  "apply_ops fuel [] a = Some a"
| "apply_ops fuel (x # xs) a =
     (case apply_op fuel x a of
        None \<Rightarrow> None
      | Some (r, a') \<Rightarrow> apply_ops fuel xs a')"

section \<open>One allocation step of a traversal\<close>

text \<open>
  The link a search follows from a node, by the sign of the comparison, and the store to
  that link. The only change \<^verbatim>\<open>find_prop_bt\<close> and \<^verbatim>\<open>traverse_trie\<close> make to an area is to
  allocate a node and store its offset in a link of an existing node that was 0.
\<close>

definition next_link :: "prop_bt \<Rightarrow> int \<Rightarrow> nat" where
  "next_link node ret = (if ret < 0 then bt_left node else bt_right node)"

definition set_next :: "int \<Rightarrow> nat \<Rightarrow> prop_bt \<Rightarrow> prop_bt" where
  "set_next ret off n = (if ret < 0 then n\<lparr>bt_left := off\<rparr> else n\<lparr>bt_right := off\<rparr>)"

definition alloc_step :: "prop_area \<Rightarrow> prop_area \<Rightarrow> bool" where
  "alloc_step a a' =
     (\<exists>c node name namelen off a1 f.
        get_bt a c = Some node \<and> new_prop_bt a name namelen = Some (off, a1) \<and>
        namelen \<le> length name \<and>
        (bt_left node = 0 \<and> f = (\<lambda>n. n\<lparr>bt_left := off\<rparr>) \<or>
         bt_right node = 0 \<and> f = (\<lambda>n. n\<lparr>bt_right := off\<rparr>) \<or>
         bt_children node = 0 \<and> f = (\<lambda>n. n\<lparr>bt_children := off\<rparr>)) \<and>
        a' = upd_bt a1 c f)"

definition seg_size :: "string \<Rightarrow> nat" where
  "seg_size name = (case strchr name CHR ''.'' of Some i \<Rightarrow> i | None \<Rightarrow> length name)"

text \<open>
  What pruning may do to a node: wipe it, or clear some of its three links. Between two
  areas: nothing else differs.
\<close>

definition node_shrunk :: "prop_bt \<Rightarrow> prop_bt \<Rightarrow> bool" where
  "node_shrunk n n' =
     (n' = zero_bt \<or>
      (bt_name n' = bt_name n \<and> bt_namelen n' = bt_namelen n \<and> bt_prop n' = bt_prop n \<and>
       (bt_left n' = 0 \<or> bt_left n' = bt_left n) \<and>
       (bt_right n' = 0 \<or> bt_right n' = bt_right n) \<and>
       (bt_children n' = 0 \<or> bt_children n' = bt_children n)))"

definition pruned :: "prop_area \<Rightarrow> prop_area \<Rightarrow> bool" where
  "pruned a a' =
     (pa_bytes_used a' = pa_bytes_used a \<and> pa_data_size a' = pa_data_size a \<and>
      pa_serial a' = pa_serial a \<and> pa_dirty_backup a' = pa_dirty_backup a \<and>
      (\<forall>off. get_info a' off = get_info a off \<and> get_blob a' off = get_blob a off \<and>
             (pa_data a' off = None \<longleftrightarrow> pa_data a off = None) \<and>
             (get_bt a off = None \<longrightarrow> get_bt a' off = None) \<and>
             (\<forall>n. get_bt a off = Some n \<longrightarrow>
                  (\<exists>n'. get_bt a' off = Some n' \<and> node_shrunk n n'))))"

text \<open>The three links of a node that \<^verbatim>\<open>prune_trie\<close> follows.\<close>

datatype lnk = L_children | L_left | L_right

fun get_lnk :: "lnk \<Rightarrow> prop_bt \<Rightarrow> nat" where
  "get_lnk L_children n = bt_children n"
| "get_lnk L_left n = bt_left n"
| "get_lnk L_right n = bt_right n"

fun clear_lnk :: "lnk \<Rightarrow> prop_bt \<Rightarrow> prop_bt" where
  "clear_lnk L_children n = n\<lparr>bt_children := 0\<rparr>"
| "clear_lnk L_left n = n\<lparr>bt_left := 0\<rparr>"
| "clear_lnk L_right n = n\<lparr>bt_right := 0\<rparr>"

text \<open>
  One store of \<^verbatim>\<open>prune_trie\<close>: it clears a link of a node whose target has been wiped
  (or that is 0 already), or it wipes a node that has no link and no entry.
\<close>

definition prune_step :: "prop_area \<Rightarrow> prop_area \<Rightarrow> bool" where
  "prune_step a a' =
     ((\<exists>nd n x. get_bt a nd = Some n \<and>
         (get_lnk x n = 0 \<or> get_bt a (get_lnk x n) = Some zero_bt) \<and>
         a' = upd_bt a nd (clear_lnk x)) \<or>
      (\<exists>nd n. get_bt a nd = Some n \<and> bt_children n = 0 \<and> bt_left n = 0 \<and>
         bt_right n = 0 \<and> bt_prop n = 0 \<and> a' = wipe_bt a nd))"

text \<open>
  One link of \<^verbatim>\<open>prune_trie\<close>: the recursive call \<open>rec\<close> on the target of the link \<open>l\<close>
  of the node \<open>nd\<close>, and the store \<open>clear\<close> to the link when the call returned true.
\<close>

definition prune_link ::
  "(prop_area \<Rightarrow> nat option \<Rightarrow> (bool \<times> prop_area) option) \<Rightarrow> prop_area \<Rightarrow> nat \<Rightarrow> nat \<Rightarrow>
   (prop_bt \<Rightarrow> prop_bt) \<Rightarrow> bool \<Rightarrow> (bool \<times> prop_area) option" where
  "prune_link rec a nd l clear leaf =
     (if l \<noteq> 0
      then (case rec a (to_prop_obj a l) of
              None \<Rightarrow> None
            | Some (True, a') \<Rightarrow> Some (leaf, upd_bt a' nd clear)
            | Some (False, a') \<Rightarrow> Some (False, a'))
      else Some (leaf, a))"

text \<open>A node from which an entry can be reached along the links.\<close>

inductive live :: "prop_area \<Rightarrow> nat \<Rightarrow> bool" for a :: prop_area where
  live_here: "get_bt a v = Some n \<Longrightarrow> bt_prop n \<noteq> 0 \<Longrightarrow> live a v"
| live_left: "get_bt a v = Some n \<Longrightarrow> bt_left n \<noteq> 0 \<Longrightarrow> live a (bt_left n) \<Longrightarrow> live a v"
| live_right: "get_bt a v = Some n \<Longrightarrow> bt_right n \<noteq> 0 \<Longrightarrow> live a (bt_right n) \<Longrightarrow> live a v"
| live_children:
    "get_bt a v = Some n \<Longrightarrow> bt_children n \<noteq> 0 \<Longrightarrow> live a (bt_children n) \<Longrightarrow> live a v"

text \<open>The area after \<^verbatim>\<open>remove\<close> has detached and cleared the entry, before it prunes.\<close>

definition unlinked :: "prop_area \<Rightarrow> nat \<Rightarrow> nat \<Rightarrow> prop_area \<Rightarrow> bool" where
  "unlinked a node p a4 =
     (\<exists>n info a3. get_bt a node = Some n \<and> bt_prop n = p \<and> p \<noteq> 0 \<and>
        to_prop_obj a p = Some p \<and> get_info a p = Some info \<and>
        (if is_long info
         then clear_long_value (upd_bt a node (\<lambda>n. n\<lparr>bt_prop := 0\<rparr>)) p info = Some a3
         else a3 = upd_bt a node (\<lambda>n. n\<lparr>bt_prop := 0\<rparr>)) \<and>
        a4 = put_obj a3 p (Info zero_info))"

section \<open>An example area\<close>

text \<open>A sequence of operations on a new area whose header takes 128 bytes.\<close>

definition example_ops :: "area_op list" where
  "example_ops = [Add ''a.b'' 3 ''one'' 3, Add ''a.c'' 3 ''two'' 3, Remove ''a.b'' True]"

section \<open>Areas that keep what an older area holds\<close>

text \<open>
  A node keeps its name and every link that is not 0; an area extends another one when
  each node of the older one is kept.
\<close>

definition node_kept :: "prop_bt \<Rightarrow> prop_bt \<Rightarrow> bool" where
  "node_kept n n' =
     (bt_name n' = bt_name n \<and> bt_namelen n' = bt_namelen n \<and>
      (bt_left n \<noteq> 0 \<longrightarrow> bt_left n' = bt_left n) \<and>
      (bt_right n \<noteq> 0 \<longrightarrow> bt_right n' = bt_right n) \<and>
      (bt_children n \<noteq> 0 \<longrightarrow> bt_children n' = bt_children n))"

definition ext :: "prop_area \<Rightarrow> prop_area \<Rightarrow> bool" where
  "ext a b = (\<forall>off n. get_bt a off = Some n \<longrightarrow> (\<exists>n'. get_bt b off = Some n' \<and> node_kept n n'))"

text \<open>A store whose areas are well formed and within reach of the fuel.\<close>

definition wf_store :: "nat \<Rightarrow> SystemProperties \<Rightarrow> bool" where
  "wf_store fuel sp =
     (\<forall>i a. context_area sp i = Some a \<longrightarrow> wf_area a \<and> pa_data_size a \<le> fuel)"

section \<open>An example store with an empty area\<close>

text \<open>One context, to which the index routes every name; its area is new.\<close>

definition empty_store :: SystemProperties where
  "empty_store =
     \<lparr>sp_initialized = True, sp_rw = True, sp_property_info = example_index,
      sp_context_nodes = [Some (new_prop_area 128)],
      sp_serial_prop_area = Some (new_prop_area 128)\<rparr>"

section \<open>The shape of the trie\<close>

text \<open>
  Every node has one place in the trie: the links that lead to it from the root, each
  with the name of the node it leaves. Two nodes do not share an entry.
\<close>

definition addressed :: "prop_area \<Rightarrow> bool" where
  "addressed a =
     (\<exists>path :: nat \<Rightarrow> (lnk \<times> string) list.
        \<forall>v n x. get_bt a v = Some n \<and> get_lnk x n \<noteq> 0 \<longrightarrow>
                path (get_lnk x n) = path v @ [(x, bt_name n)])"

definition props_distinct :: "prop_area \<Rightarrow> bool" where
  "props_distinct a =
     (\<forall>v w n m. get_bt a v = Some n \<and> get_bt a w = Some m \<and> bt_prop n \<noteq> 0 \<and>
                 bt_prop n = bt_prop m \<longrightarrow> v = w)"

definition trie_inv :: "prop_area \<Rightarrow> bool" where
  "trie_inv a = (wf_area a \<and> addressed a \<and> props_distinct a)"

definition trie_store :: "nat \<Rightarrow> SystemProperties \<Rightarrow> bool" where
  "trie_store fuel sp =
     (\<forall>i a. context_area sp i = Some a \<longrightarrow> trie_inv a \<and> pa_data_size a \<le> fuel)"

section \<open>The entries of a trie in the order of the traversal\<close>

text \<open>
  The entries of the subtrie at a node: those of the left subtree, the node's own, those
  of its children and those of the right subtree.
\<close>

definition sub_entries :: "(nat \<Rightarrow> nat list) \<Rightarrow> nat \<Rightarrow> nat list" where
  "sub_entries rec l = (if l \<noteq> 0 then rec l else [])"

fun entries :: "nat \<Rightarrow> prop_area \<Rightarrow> nat \<Rightarrow> nat list" where
  "entries 0 a t = []"
| "entries (Suc k) a t =
     (case get_bt a t of
        None \<Rightarrow> []
      | Some n \<Rightarrow>
          sub_entries (entries k a) (bt_left n) @
          (if bt_prop n \<noteq> 0 then [bt_prop n] else []) @
          sub_entries (entries k a) (bt_children n) @
          sub_entries (entries k a) (bt_right n))"

text \<open>The entries of a store: those of each context node that has an area, in index order.\<close>

fun node_entries :: "nat \<Rightarrow> prop_area option list \<Rightarrow> nat \<Rightarrow> prop_info_ptr list" where
  "node_entries fuel [] i = []"
| "node_entries fuel (node # nodes) i =
     (case node of
        None \<Rightarrow> []
      | Some pa \<Rightarrow> map (\<lambda>off. (i, off)) (entries fuel pa 0)) @ node_entries fuel nodes (Suc i)"

definition store_entries :: "nat \<Rightarrow> SystemProperties \<Rightarrow> prop_info_ptr list" where
  "store_entries fuel sp = node_entries fuel (sp_context_nodes sp) 0"

text \<open>A link from one node to another.\<close>

definition linked :: "prop_area \<Rightarrow> nat \<Rightarrow> nat \<Rightarrow> bool" where
  "linked a u w = (\<exists>n x. get_bt a u = Some n \<and> get_lnk x n = w \<and> w \<noteq> 0)"

section \<open>The serial word after \<^verbatim>\<open>Update\<close>\<close>

lemma dirty_iff_even: "(SERIAL_DIRTY s = 0) = even s"
  by (simp add: SERIAL_DIRTY_def and_one_eq even_iff_mod_2_eq_zero)

lemma mask24: "(0xffffff :: u32) = mask 24"
  by (simp add: mask_eq_exp_minus_1)

lemma nat_bit_small: "len < 2 ^ m \<Longrightarrow> m \<le> n \<Longrightarrow> \<not> bit (len::nat) n"
proof -
  assume a: "len < 2 ^ m" "m \<le> n"
  have "(2::nat) ^ m \<le> 2 ^ n" using a(2) by simp
  then have "len < 2 ^ n" using a(1) by linarith
  then have "len div 2 ^ n = 0" by simp
  then show ?thesis by (simp add: bit_iff_odd)
qed

lemma publish_len:
  fixes y :: u32
  assumes "len < 256"
  shows "SERIAL_VALUE_LEN (push_bit 24 (of_nat len) OR (y AND 0xffffff)) = of_nat len"
proof (rule bit_eqI)
  fix n
  have "len < 2 ^ 8" using assms by simp
  then have "8 \<le> n \<Longrightarrow> \<not> bit len n" by (rule nat_bit_small)
  then show "bit (SERIAL_VALUE_LEN (push_bit 24 (of_nat len) OR (y AND 0xffffff))) n = bit (of_nat len :: u32) n"
    unfolding SERIAL_VALUE_LEN_def mask24
    by (cases "n < 8") (auto simp add: bit_simps)
qed

lemma publish_dirty:
  fixes s :: u32
  shows "SERIAL_DIRTY (push_bit 24 L OR (((s OR 1) + 1) AND 0xffffff)) = 0"
  by (simp add: dirty_iff_even even_or_iff even_and_iff)

lemma seq_unat: "unat (SERIAL_SEQUENCE s) = (unat s mod 2 ^ 24) div 2"
  unfolding SERIAL_SEQUENCE_def mask24
  by (simp add: unat_drop_bit_eq flip: take_bit_eq_mask) (simp add: unsigned_take_bit_eq take_bit_eq_mod drop_bit_eq_div unat_mod_distrib)

lemma publish_low:
  fixes s :: u32
  shows "(push_bit 24 L OR (y AND 0xffffff)) AND 0xffffff = y AND (0xffffff::u32)"
  unfolding mask24
  by (rule bit_eqI) (auto simp add: bit_simps)

lemma seq_arith:
  assumes "even (u::nat)"
  shows "((u + 2) mod 2 ^ 32 mod 2 ^ 24) div 2 = ((u mod 2 ^ 24) div 2 + 1) mod 2 ^ 23"
proof -
  obtain k where k: "u = 2 * k" using assms by (auto elim: evenE)
  have a: "(u + 2) mod 2 ^ 32 mod 2 ^ 24 = (u + 2) mod 2 ^ 24"
    by (rule mod_mod_cancel) simp
  have b: "(u + 2) mod 2 ^ 24 = 2 * ((k + 1) mod 2 ^ 23)"
    using mult_mod_right [of 2 "k + 1" "2 ^ 23"] by (simp add: k)
  have c: "u mod 2 ^ 24 = 2 * (k mod 2 ^ 23)"
    using mult_mod_right [of 2 k "2 ^ 23"] by (simp add: k)
  show ?thesis
    unfolding a b c by (simp add: mod_Suc_eq)
qed

lemma publish_seq:
  fixes s :: u32
  assumes "SERIAL_DIRTY s = 0"
  shows "unat (SERIAL_SEQUENCE (push_bit 24 L OR (((s OR 1) + 1) AND 0xffffff))) =
         (unat (SERIAL_SEQUENCE s) + 1) mod 2 ^ 23"
proof -
  have e: "even s" using assms by (simp add: dirty_iff_even)
  have "s OR 1 = s + 1" using e by (simp add: or_one_eq)
  then have y: "(s OR 1) + 1 = s + 2" by simp
  have "odd (unat s) = odd s" by (simp flip: bit_0 add: bit_unsigned_iff)
  then have eu: "even (unat s)" using e by simp  
  have "SERIAL_SEQUENCE (push_bit 24 L OR (((s OR 1) + 1) AND 0xffffff)) = SERIAL_SEQUENCE (s + 2)"
    unfolding SERIAL_SEQUENCE_def y publish_low ..
  moreover have "unat (s + 2) = (unat s + 2) mod 2 ^ 32"
    by (simp add: unat_word_ariths)
  ultimately show ?thesis
    using seq_arith [OF eu] by (simp only: seq_unat)
qed


lemma context_area_set:
  "context_area (set_context_area sp i a) k =
     (if k = i \<and> i < length (sp_context_nodes sp) then Some a else context_area sp k)"
  by (simp add: context_area_def set_context_area_def)

lemma context_area_bump [simp]: "context_area (bump_serial sp) k = context_area sp k"
  by (simp add: context_area_def bump_serial_def)

lemma deref_info_bump [simp]: "deref_info (bump_serial sp) pi = deref_info sp pi"
  by (simp add: deref_info_def)

lemma context_area_Some_less: "context_area sp i = Some a \<Longrightarrow> i < length (sp_context_nodes sp)"
  by (simp add: context_area_def split: if_splits)

lemma get_info_put_obj [simp]: "get_info (put_obj a off (Info x)) off = Some x"
  by (simp add: get_info_def put_obj_def)

lemma deref_info_store:
  "deref_info sp pi = Some old \<Longrightarrow> deref_info (store_info sp pi x) pi = Some x"
  by (auto simp add: deref_info_def store_info_def context_area_set
      split: option.splits dest: context_area_Some_less)

lemma deref_info_backup [simp]: "deref_info (backup_value sp j info) pi = deref_info sp pi"
  by (auto simp add: deref_info_def backup_value_def context_area_set get_info_def
      split: option.splits dest: context_area_Some_less)

lemma Update_result:
  assumes "SystemProperties_Update sp pi value len = Some (0, sp')"
      and "deref_info sp pi = Some info0"
  shows "deref_info sp' pi = Some (Update_entry value len info0) \<and> len < PROP_VALUE_MAX"
  using assms
  by (auto simp add: SystemProperties_Update_def Let_def deref_info_store
      split: if_splits option.splits)

lemma Update_entry_serial:
  "pi_serial (Update_entry value len info) =
     push_bit 24 (of_nat len) OR (((pi_serial info OR 1) + 1) AND 0xffffff)"
  by (simp add: Update_entry_def Update_publish_def Update_copy_value_def Update_mark_dirty_def)

text \<open>
  Claim C2. An entry whose dirty bit is clear and a new value of length
  \<open>len < PROP_VALUE_MAX\<close>: after a successful \<^verbatim>\<open>Update\<close> the serial word of the entry has
  the length field (bits 31..24) equal to \<open>len\<close>, the dirty bit (bit 0) clear, and the
  sequence field (bits 23..1) equal to the previous sequence plus one modulo \<open>2 ^ 23\<close>.
\<close>

theorem Update_serial_fields:
  assumes "deref_info sp pi = Some info0"
      and "SERIAL_DIRTY (pi_serial info0) = 0"
      and "len < PROP_VALUE_MAX"
      and "SystemProperties_Update sp pi value len = Some (0, sp')"
  shows "\<exists>info'. deref_info sp' pi = Some info' \<and>
           unat (SERIAL_VALUE_LEN (pi_serial info')) = len \<and>
           SERIAL_DIRTY (pi_serial info') = 0 \<and>
           unat (SERIAL_SEQUENCE (pi_serial info')) =
             (unat (SERIAL_SEQUENCE (pi_serial info0)) + 1) mod 2 ^ 23"
proof -
  have d: "deref_info sp' pi = Some (Update_entry value len info0)"
    using Update_result [OF assms(4) assms(1)] by simp
  have l: "len < 256" using assms(3) by (simp add: PROP_VALUE_MAX_def)
  have "unat (of_nat len :: u32) = len"
    using l by (simp add: unat_of_nat)
  then have 1: "unat (SERIAL_VALUE_LEN (pi_serial (Update_entry value len info0))) = len"
    unfolding Update_entry_serial using publish_len [OF l] by simp
  have 2: "SERIAL_DIRTY (pi_serial (Update_entry value len info0)) = 0"
    unfolding Update_entry_serial by (rule publish_dirty)
  have 3: "unat (SERIAL_SEQUENCE (pi_serial (Update_entry value len info0))) =
             (unat (SERIAL_SEQUENCE (pi_serial info0)) + 1) mod 2 ^ 23"
    unfolding Update_entry_serial by (rule publish_seq [OF assms(2)])
  show ?thesis using d 1 2 3 by blast
qed

lemma example_route: "GetPropertyInfoIndexes example_index ''a.b'' = (0, NO_INDEX)"
  by (simp add: GetPropertyInfoIndexes_def example_index_def descend.simps
      CheckPrefixMatch_def FindChildForString_def Find_def Find_loop.simps NO_INDEX_def)

lemma example_area: "GetPropAreaForName example_store ''a.b'' = Some 0"
  by (simp add: GetPropAreaForName_def example_store_def example_route NO_INDEX_def)

lemma example_flags:
  "sp_initialized example_store" "sp_rw example_store"
  "sp_serial_prop_area example_store \<noteq> None"
  by (simp_all add: example_store_def)

lemma example_deref: "deref_info example_store (0, 20) = Some (prop_info_short ''a.b'' 3 ''one'' 3)"
  by (simp add: deref_info_def example_store_def context_area_def)

text \<open>The same on the example store: the entry at offset 20 is updated to \<open>''four''\<close>.\<close>

theorem Update_serial_fields_witness:
  "\<exists>sp' info'. SystemProperties_Update example_store (0, 20) ''four'' 4 = Some (0, sp') \<and>
      deref_info sp' (0, 20) = Some info' \<and>
      unat (SERIAL_VALUE_LEN (pi_serial info')) = 4 \<and>
      SERIAL_DIRTY (pi_serial info') = 0 \<and>
      unat (SERIAL_SEQUENCE (pi_serial info')) = 1"
proof -
  have n: "pi_name (prop_info_short ''a.b'' 3 ''one'' 3) = ''a.b''"
    by (simp add: prop_info_short_def)
  have s: "pi_serial (prop_info_short ''a.b'' 3 ''one'' 3) = push_bit 24 3"
    by (simp add: prop_info_short_def)
  obtain sp' where u: "SystemProperties_Update example_store (0, 20) ''four'' 4 = Some (0, sp')"
    by (simp add: SystemProperties_Update_def example_deref n example_area example_flags
        PROP_VALUE_MAX_def Let_def)
  have d: "SERIAL_DIRTY (pi_serial (prop_info_short ''a.b'' 3 ''one'' 3)) = 0"
    by (simp add: s SERIAL_DIRTY_def)
  have q: "unat (SERIAL_SEQUENCE (pi_serial (prop_info_short ''a.b'' 3 ''one'' 3))) = 0"
    by (simp add: s SERIAL_SEQUENCE_def)
  have l: "(4::nat) < PROP_VALUE_MAX" by (simp add: PROP_VALUE_MAX_def)
  show ?thesis
    using Update_serial_fields [OF example_deref d l u] u by (auto simp add: q)
qed

lemma c_str_no_NUL [simp]: "NUL \<notin> set (c_str buf)"
  unfolding c_str_def by (induction buf) auto

lemma length_c_str: "length (c_str buf) = strlen buf"
  by (simp add: strlen_def)

lemma c_str_terminated: "NUL \<notin> set xs \<Longrightarrow> c_str (xs @ NUL # ys) = xs"
  unfolding c_str_def by (induction xs) auto

lemma take_strlen: "take (strlen v) v = c_str v"
  unfolding strlen_def c_str_def by (rule takeWhile_eq_take [symmetric])

lemma write_terminated:
  assumes "length xs < length dst"
  shows "(xs @ drop (length xs) dst)[length xs := NUL] = xs @ NUL # drop (Suc (length xs)) dst"
proof -
  have "drop (length xs) dst = dst ! length xs # drop (Suc (length xs)) dst"
    using assms by (simp add: Cons_nth_drop_Suc)
  then show ?thesis by (simp add: list_update_append)
qed


lemma ctor_value_exact:
  assumes "strlen value = len" and "len < PROP_VALUE_MAX"
  shows "pi_value (prop_info_short name namelen value len) =
           c_str value @ NUL # replicate (PROP_VALUE_MAX - Suc len) NUL"
proof -
  have l: "length (c_str value) = len" using assms(1) by (simp add: strlen_def)
  have t: "take len value = c_str value" using take_strlen [of "value"] assms(1) by simp
  have "(c_str value @ drop (length (c_str value)) (replicate PROP_VALUE_MAX NUL))
          [length (c_str value) := NUL]
        = c_str value @ NUL # drop (Suc (length (c_str value))) (replicate PROP_VALUE_MAX NUL)"
    by (rule write_terminated) (use assms(2) l in simp)
  then show ?thesis
    by (simp add: prop_info_short_def memcpy_def t l)
qed

lemma unat_len24: "len < 256 \<Longrightarrow> unat (SERIAL_VALUE_LEN (push_bit 24 (of_nat len))) = len"
proof -
  assume l: "len < 256"
  have "SERIAL_VALUE_LEN (push_bit 24 (of_nat len) OR ((0::u32) AND 0xffffff)) = of_nat len"
    by (rule publish_len [OF l])
  then show ?thesis using l by (simp add: unat_of_nat)
qed






section \<open>The v1 wire client\<close>

text \<open>
  Claim C9. Once the whole \<^verbatim>\<open>prop_msg\<close> has been sent, \<^verbatim>\<open>send_prop_msg\<close> returns 0 both
  when the poll reports \<^verbatim>\<open>POLLHUP\<close> within the 250 ms and when the poll times out
  (its result is 0).
\<close>

theorem send_prop_msg_success:
  assumes "connection_valid env" and "num_bytes env = sizeof_prop_msg"
  shows "(poll_result env = 1 \<and> revents env AND POLLHUP \<noteq> 0 \<longrightarrow> send_prop_msg msg env = 0) \<and>
         (poll_result env = 0 \<longrightarrow> send_prop_msg msg env = 0)"
  using assms by (simp add: send_prop_msg_def)

text \<open>Both cases on a full send of 128 bytes.\<close>

theorem send_prop_msg_success_witness:
  "send_prop_msg \<lparr>cmd = 1, msg_name = ''a.b'', msg_value = ''one''\<rparr>
     \<lparr>connection_valid = True, connection_last_error = 0, num_bytes = 128,
      poll_result = 1, revents = 0x10\<rparr> = 0 \<and>
   send_prop_msg \<lparr>cmd = 1, msg_name = ''a.b'', msg_value = ''one''\<rparr>
     \<lparr>connection_valid = True, connection_last_error = 0, num_bytes = 128,
      poll_result = 0, revents = 0\<rparr> = 0"
proof -
  have s: "sizeof_prop_msg = 128"
    by (simp add: sizeof_prop_msg_def PROP_NAME_MAX_def PROP_VALUE_MAX_def)
  have p: "(0x10 :: 16 word) AND POLLHUP \<noteq> 0" by (simp add: POLLHUP_def)
  show ?thesis
    using send_prop_msg_success
            [of "\<lparr>connection_valid = True, connection_last_error = 0, num_bytes = 128,
                  poll_result = 1, revents = 0x10\<rparr>"
                "\<lparr>cmd = 1, msg_name = ''a.b'', msg_value = ''one''\<rparr>"]
          send_prop_msg_success
            [of "\<lparr>connection_valid = True, connection_last_error = 0, num_bytes = 128,
                  poll_result = 0, revents = 0\<rparr>"
                "\<lparr>cmd = 1, msg_name = ''a.b'', msg_value = ''one''\<rparr>"]
          s p
    by simp
qed

section \<open>Routing a name through the binary index\<close>













section \<open>Properties of the area\<close>

section \<open>Reading the store after a write\<close>

lemma put_obj_simps [simp]:
  "pa_bytes_used (put_obj a off x) = pa_bytes_used a"
  "pa_data_size (put_obj a off x) = pa_data_size a"
  "pa_serial (put_obj a off x) = pa_serial a"
  "pa_dirty_backup (put_obj a off x) = pa_dirty_backup a"
  "pa_data (put_obj a off x) k = (if k = off then Some x else pa_data a k)"
  by (simp_all add: put_obj_def)

lemma get_put_obj:
  "get_bt (put_obj a off x) k = (if k = off then (case x of Bt n \<Rightarrow> Some n | _ \<Rightarrow> None) else get_bt a k)"
  "get_info (put_obj a off x) k = (if k = off then (case x of Info i \<Rightarrow> Some i | _ \<Rightarrow> None) else get_info a k)"
  "get_blob (put_obj a off x) k = (if k = off then (case x of LongValue b \<Rightarrow> Some b | _ \<Rightarrow> None) else get_blob a k)"
  by (simp_all add: get_bt_def get_info_def get_blob_def)

lemma get_bt_Some: "get_bt a off = Some n \<longleftrightarrow> pa_data a off = Some (Bt n)"
  by (auto simp add: get_bt_def split: option.splits obj.splits)

lemma get_info_Some: "get_info a off = Some i \<longleftrightarrow> pa_data a off = Some (Info i)"
  by (auto simp add: get_info_def split: option.splits obj.splits)

lemma get_blob_Some: "get_blob a off = Some b \<longleftrightarrow> pa_data a off = Some (LongValue b)"
  by (auto simp add: get_blob_def split: option.splits obj.splits)

lemma upd_bt_simps [simp]:
  "pa_bytes_used (upd_bt a off f) = pa_bytes_used a"
  "pa_data_size (upd_bt a off f) = pa_data_size a"
  "pa_serial (upd_bt a off f) = pa_serial a"
  "pa_dirty_backup (upd_bt a off f) = pa_dirty_backup a"
  by (simp_all add: upd_bt_def split: option.splits)

lemma get_upd_bt:
  "get_bt (upd_bt a off f) k = (if k = off then map_option f (get_bt a off) else get_bt a k)"
  "get_info (upd_bt a off f) k = get_info a k"
  "get_blob (upd_bt a off f) k = get_blob a k"
proof -
  show "get_bt (upd_bt a off f) k = (if k = off then map_option f (get_bt a off) else get_bt a k)"
    by (cases "get_bt a off") (simp_all add: upd_bt_def get_put_obj)
  show "get_info (upd_bt a off f) k = get_info a k"
  proof (cases "get_bt a off")
    case None
    then show ?thesis by (simp add: upd_bt_def)
  next
    case (Some n)
    then have "get_info a off = None" by (simp add: get_bt_Some get_info_def)
    then show ?thesis using Some by (simp add: upd_bt_def get_put_obj)
  qed
  show "get_blob (upd_bt a off f) k = get_blob a k"
  proof (cases "get_bt a off")
    case None
    then show ?thesis by (simp add: upd_bt_def)
  next
    case (Some n)
    then have "get_blob a off = None" by (simp add: get_bt_Some get_blob_def)
    then show ?thesis using Some by (simp add: upd_bt_def get_put_obj)
  qed
qed

lemma data_upd_bt_None: "pa_data (upd_bt a off f) k = None \<longleftrightarrow> pa_data a k = None"
  by (auto simp add: upd_bt_def get_bt_Some split: option.splits)

lemma to_prop_obj_simps [simp]:
  "to_prop_obj (put_obj a off x) l = to_prop_obj a l"
  "to_prop_obj (upd_bt a off f) l = to_prop_obj a l"
  by (simp_all add: to_prop_obj_def)

section \<open>Allocation\<close>

lemma BIONIC_ALIGN_4: "sz \<le> BIONIC_ALIGN sz 4" "4 dvd BIONIC_ALIGN sz 4"
  by (simp_all add: BIONIC_ALIGN_def)

lemma allocate_obj_Some:
  assumes "allocate_obj a sz = Some (off, a')"
  shows "off = pa_bytes_used a"
    and "a' = a\<lparr>pa_bytes_used := pa_bytes_used a + BIONIC_ALIGN sz 4\<rparr>"
    and "pa_bytes_used a + BIONIC_ALIGN sz 4 \<le> pa_data_size a"
  using assms by (auto simp add: allocate_obj_def Let_def split: if_splits)

lemma new_prop_bt_Some:
  assumes "new_prop_bt a name namelen = Some (off, a')"
  shows "off = pa_bytes_used a"
    and "pa_bytes_used a < pa_bytes_used a'"
    and "pa_bytes_used a' \<le> pa_data_size a"
    and "pa_data_size a' = pa_data_size a"
    and "pa_data a' = (pa_data a)(off := Some (Bt (zero_bt\<lparr>bt_namelen := namelen, bt_name := take namelen name\<rparr>)))"
proof -
  obtain a1 where al: "allocate_obj a (sizeof_prop_bt + namelen + 1) = Some (off, a1)"
    and a': "a' = put_obj a1 off (Bt (zero_bt\<lparr>bt_namelen := namelen, bt_name := take namelen name\<rparr>))"
    using assms by (auto simp add: new_prop_bt_def split: option.splits)
  note f = allocate_obj_Some [OF al]
  have pos: "0 < BIONIC_ALIGN (sizeof_prop_bt + namelen + 1) 4"
    using BIONIC_ALIGN_4(1) [of "sizeof_prop_bt + namelen + 1"] by simp
  show "off = pa_bytes_used a" by (rule f(1))
  show "pa_bytes_used a < pa_bytes_used a'" using pos by (simp add: a' f(2))
  show "pa_bytes_used a' \<le> pa_data_size a" using f(3) by (simp add: a' f(2))
  show "pa_data_size a' = pa_data_size a" by (simp add: a' f(2))
  show "pa_data a' = (pa_data a)(off := Some (Bt (zero_bt\<lparr>bt_namelen := namelen, bt_name := take namelen name\<rparr>)))"
    by (simp add: a' f(2) put_obj_def)
qed


section \<open>The search in one segment tree\<close>

lemma set_next_eq:
  "ret < 0 \<Longrightarrow> set_next ret off = (\<lambda>n. n\<lparr>bt_left := off\<rparr>)"
  "\<not> ret < 0 \<Longrightarrow> set_next ret off = (\<lambda>n. n\<lparr>bt_right := off\<rparr>)"
  by (simp_all add: fun_eq_iff set_next_def)

lemma find_prop_bt_Suc:
  "find_prop_bt (Suc k) a (Some cur) name namelen alloc =
     (case get_bt a cur of
        None \<Rightarrow> None
      | Some node \<Rightarrow>
          (let ret = cmp_prop_name name namelen (bt_name node) (bt_namelen node)
           in if ret = 0 then Some (Some cur, a)
              else if next_link node ret \<noteq> 0
              then find_prop_bt k a (to_prop_obj a (next_link node ret)) name namelen alloc
              else if \<not> alloc then Some (None, a)
              else (case new_prop_bt a name namelen of
                      None \<Rightarrow> Some (None, a)
                    | Some (new_offset, a') \<Rightarrow>
                        Some (Some new_offset, upd_bt a' cur (set_next ret new_offset)))))"
  by (auto simp add: next_link_def set_next_eq Let_def split: option.splits)

lemma find_prop_bt_None [simp]: "find_prop_bt (Suc k) a None name namelen alloc = Some (None, a)"
  by simp

lemmas find_prop_bt_simps_del = find_prop_bt.simps(2)
declare find_prop_bt.simps(2) [simp del]

text \<open>What a search returns: the area unchanged, or one allocation step.\<close>

lemma find_prop_bt_result:
  assumes "find_prop_bt k a cur name namelen alloc = Some (p, a')"
  shows "(a' = a \<and> (p = None \<or> (\<exists>c node. p = Some c \<and> get_bt a c = Some node \<and>
             cmp_prop_name name namelen (bt_name node) (bt_namelen node) = 0))) \<or>
         (alloc \<and> (\<exists>c node ret off a1. get_bt a c = Some node \<and>
             ret = cmp_prop_name name namelen (bt_name node) (bt_namelen node) \<and>
             ret \<noteq> 0 \<and> next_link node ret = 0 \<and>
             new_prop_bt a name namelen = Some (off, a1) \<and>
             p = Some off \<and> a' = upd_bt a1 c (set_next ret off)))"
  using assms
proof (induction k arbitrary: cur)
  case 0
  then show ?case by simp
next
  case (Suc k)
  show ?case
  proof (cases cur)
    case None
    then show ?thesis using Suc.prems by simp
  next
    case (Some c)
    then obtain node where n: "get_bt a c = Some node"
      using Suc.prems by (auto simp add: find_prop_bt_Suc split: option.splits)
    define ret where "ret = cmp_prop_name name namelen (bt_name node) (bt_namelen node)"
    show ?thesis
    proof (cases "ret = 0")
      case True
      then show ?thesis using Suc.prems Some n by (auto simp add: find_prop_bt_Suc ret_def)
    next
      case False
      show ?thesis
      proof (cases "next_link node ret = 0")
        case False
        with \<open>ret \<noteq> 0\<close> have "find_prop_bt k a (to_prop_obj a (next_link node ret)) name namelen alloc
            = Some (p, a')"
          using Suc.prems Some n by (simp add: find_prop_bt_Suc ret_def Let_def)
        then show ?thesis by (rule Suc.IH)
      next
        case True
        show ?thesis
        proof (cases alloc)
          case False
          then show ?thesis
            using Suc.prems Some n True \<open>ret \<noteq> 0\<close>
            by (simp add: find_prop_bt_Suc ret_def Let_def)
        next
          case True
          show ?thesis
          proof (cases "new_prop_bt a name namelen")
            case None
            then show ?thesis
              using Suc.prems Some n True \<open>next_link node ret = 0\<close> \<open>ret \<noteq> 0\<close>
              by (simp add: find_prop_bt_Suc ret_def Let_def)
          next
            case (Some r)
            obtain off a1 where r: "r = (off, a1)" by (cases r)
            have "p = Some off \<and> a' = upd_bt a1 c (set_next ret off)"
              using Suc.prems \<open>cur = Some c\<close> n True \<open>next_link node ret = 0\<close> \<open>ret \<noteq> 0\<close> Some r
              by (simp add: find_prop_bt_Suc ret_def Let_def)
            then show ?thesis
              using n True \<open>next_link node ret = 0\<close> \<open>ret \<noteq> 0\<close> Some r ret_def by blast
          qed
        qed
      qed
    qed
  qed
qed


section \<open>What one allocation step changes\<close>

lemma wf_areaD:
  assumes "wf_area a"
  shows "pa_bytes_used a \<le> pa_data_size a"
    and "pa_data a off \<noteq> None \<Longrightarrow> off < pa_bytes_used a"
    and "get_bt a 0 \<noteq> None"
    and "get_bt a off = Some n \<Longrightarrow> node_ok a off n"
  using assms by (auto simp add: wf_area_def)

lemma wf_area_below:
  assumes "wf_area a"
  shows "get_bt a off = Some n \<Longrightarrow> off < pa_bytes_used a"
    and "get_info a off = Some i \<Longrightarrow> off < pa_bytes_used a"
    and "get_blob a off = Some b \<Longrightarrow> off < pa_bytes_used a"
    and "0 < pa_bytes_used a"
    and "pa_data a (pa_bytes_used a) = None"
proof -
  show "get_bt a off = Some n \<Longrightarrow> off < pa_bytes_used a"
    using wf_areaD(2) [OF assms, of off] by (simp add: get_bt_Some)
  show "get_info a off = Some i \<Longrightarrow> off < pa_bytes_used a"
    using wf_areaD(2) [OF assms, of off] by (simp add: get_info_Some)
  show "get_blob a off = Some b \<Longrightarrow> off < pa_bytes_used a"
    using wf_areaD(2) [OF assms, of off] by (simp add: get_blob_Some)
  show "0 < pa_bytes_used a"
  proof -
    obtain r where "get_bt a 0 = Some r" using wf_areaD(3) [OF assms] by auto
    then have "pa_data a 0 \<noteq> None" by (simp add: get_bt_Some)
    then show ?thesis by (rule wf_areaD(2) [OF assms])
  qed
  show "pa_data a (pa_bytes_used a) = None"
    using wf_areaD(2) [OF assms, of "pa_bytes_used a"]
    by (cases "pa_data a (pa_bytes_used a)") simp_all
qed

lemma alloc_stepE:
  assumes "alloc_step a a'" and "wf_area a"
  obtains c node off newnode f where
    "get_bt a c = Some node" "c < off" "off = pa_bytes_used a" "off \<noteq> 0"
    "pa_bytes_used a < pa_bytes_used a'" "pa_bytes_used a' \<le> pa_data_size a"
    "pa_data_size a' = pa_data_size a"
    "bt_left newnode = 0" "bt_right newnode = 0" "bt_children newnode = 0" "bt_prop newnode = 0"
    "bt_namelen newnode = length (bt_name newnode)"
    "bt_left node = 0 \<and> f = (\<lambda>n. n\<lparr>bt_left := off\<rparr>) \<or>
     bt_right node = 0 \<and> f = (\<lambda>n. n\<lparr>bt_right := off\<rparr>) \<or>
     bt_children node = 0 \<and> f = (\<lambda>n. n\<lparr>bt_children := off\<rparr>)"
    "\<And>k. get_bt a' k = (if k = c then Some (f node) else if k = off then Some newnode else get_bt a k)"
    "\<And>k. get_info a' k = get_info a k" "\<And>k. get_blob a' k = get_blob a k"
    "\<And>k. pa_data a' k = None \<longleftrightarrow> k \<noteq> off \<and> pa_data a k = None"
    "pa_serial a' = pa_serial a" "pa_dirty_backup a' = pa_dirty_backup a"
proof -
  from assms(1) obtain c node name namelen off a1 f where
    n: "get_bt a c = Some node" and nb: "new_prop_bt a name namelen = Some (off, a1)"
    and nl: "namelen \<le> length name"
    and f: "bt_left node = 0 \<and> f = (\<lambda>n. n\<lparr>bt_left := off\<rparr>) \<or>
            bt_right node = 0 \<and> f = (\<lambda>n. n\<lparr>bt_right := off\<rparr>) \<or>
            bt_children node = 0 \<and> f = (\<lambda>n. n\<lparr>bt_children := off\<rparr>)"
    and a': "a' = upd_bt a1 c f"
    unfolding alloc_step_def by blast
  define newnode where "newnode = zero_bt\<lparr>bt_namelen := namelen, bt_name := take namelen name\<rparr>"
  note b = new_prop_bt_Some [OF nb]
  have off: "off = pa_bytes_used a" by (rule b(1))
  have c: "c < off" using wf_area_below(1) [OF assms(2) n] off by simp
  have fresh: "pa_data a off = None" using wf_area_below(5) [OF assms(2)] off by simp
  have d1: "pa_data a1 k = (if k = off then Some (Bt newnode) else pa_data a k)" for k
    by (simp add: b(5) newnode_def)
  have g1: "get_bt a1 k = (if k = off then Some newnode else get_bt a k)" for k
    by (simp add: get_bt_def d1)
  have i1: "get_info a1 k = get_info a k" for k
    using fresh by (simp add: get_info_def d1)
  have l1: "get_blob a1 k = get_blob a k" for k
    using fresh by (simp add: get_blob_def d1)
  have s1: "pa_serial a1 = pa_serial a \<and> pa_dirty_backup a1 = pa_dirty_backup a"
    using nb by (auto simp add: new_prop_bt_def allocate_obj_def Let_def split: option.splits if_splits)
  show thesis
  proof (rule that [of c node off newnode f])
    show "get_bt a c = Some node" by (rule n)
    show "c < off" by (rule c)
    show "off = pa_bytes_used a" by (rule off)
    show "off \<noteq> 0" using c by simp
    show "pa_bytes_used a < pa_bytes_used a'" using b(2) by (simp add: a')
    show "pa_bytes_used a' \<le> pa_data_size a" using b(3) by (simp add: a')
    show "pa_data_size a' = pa_data_size a" using b(4) by (simp add: a')
    show "bt_left newnode = 0" "bt_right newnode = 0" "bt_children newnode = 0" "bt_prop newnode = 0"
      by (simp_all add: newnode_def zero_bt_def)
    show "bt_namelen newnode = length (bt_name newnode)"
      using nl by (simp add: newnode_def)
    show "bt_left node = 0 \<and> f = (\<lambda>n. n\<lparr>bt_left := off\<rparr>) \<or>
     bt_right node = 0 \<and> f = (\<lambda>n. n\<lparr>bt_right := off\<rparr>) \<or>
     bt_children node = 0 \<and> f = (\<lambda>n. n\<lparr>bt_children := off\<rparr>)" by (rule f)
    show "get_bt a' k = (if k = c then Some (f node) else if k = off then Some newnode else get_bt a k)" for k
      using c n by (simp add: a' get_upd_bt g1)
    show "get_info a' k = get_info a k" for k by (simp add: a' get_upd_bt i1)
    show "get_blob a' k = get_blob a k" for k by (simp add: a' get_upd_bt l1)
    show "pa_data a' k = None \<longleftrightarrow> k \<noteq> off \<and> pa_data a k = None" for k
      by (simp add: a' data_upd_bt_None d1)
    show "pa_serial a' = pa_serial a" "pa_dirty_backup a' = pa_dirty_backup a"
      using s1 by (simp_all add: a')
  qed
qed

lemma alloc_step_wf:
  assumes "alloc_step a a'" and "wf_area a"
  shows "wf_area a'"
proof -
  from assms obtain c node off newnode f where
    n: "get_bt a c = Some node" and c: "c < off" and off: "off = pa_bytes_used a" "off \<noteq> 0"
    and bu: "pa_bytes_used a < pa_bytes_used a'" "pa_bytes_used a' \<le> pa_data_size a"
      "pa_data_size a' = pa_data_size a"
    and nn: "bt_left newnode = 0" "bt_right newnode = 0" "bt_children newnode = 0"
      "bt_prop newnode = 0" "bt_namelen newnode = length (bt_name newnode)"
    and f: "bt_left node = 0 \<and> f = (\<lambda>n. n\<lparr>bt_left := off\<rparr>) \<or>
     bt_right node = 0 \<and> f = (\<lambda>n. n\<lparr>bt_right := off\<rparr>) \<or>
     bt_children node = 0 \<and> f = (\<lambda>n. n\<lparr>bt_children := off\<rparr>)"
    and g: "\<And>k. get_bt a' k = (if k = c then Some (f node) else if k = off then Some newnode else get_bt a k)"
    and i: "\<And>k. get_info a' k = get_info a k" and l: "\<And>k. get_blob a' k = get_blob a k"
    and d: "\<And>k. pa_data a' k = None \<longleftrightarrow> k \<noteq> off \<and> pa_data a k = None"
    by (rule alloc_stepE) blast
  have mono: "get_bt a k \<noteq> None \<Longrightarrow> get_bt a' k \<noteq> None" for k
    by (simp add: g)
  have lk: "link_ok a k x \<Longrightarrow> link_ok a' k x" for k x
    using mono by (auto simp add: link_ok_def)
  have pk: "prop_ok a k x \<Longrightarrow> prop_ok a' k x" for k x
    by (auto simp add: prop_ok_def entry_ok_def i l split: option.splits)
  have newl: "link_ok a' c off"
    using c by (simp add: link_ok_def g)
  have ok: "node_ok a' k n'" if h: "get_bt a' k = Some n'" for k n'
  proof -
    consider "k = c" "n' = f node" | "k \<noteq> c" "k = off" "n' = newnode"
      | "k \<noteq> c" "k \<noteq> off" "get_bt a k = Some n'"
      using h by (auto simp add: g split: if_splits)
    then show ?thesis
    proof cases
      case 1
      have "node_ok a c node" using wf_areaD(4) [OF assms(2) n] .
      then show ?thesis
        using f newl 1 lk pk by (auto simp add: node_ok_def)
    next
      case 2
      then show ?thesis using nn by (simp add: node_ok_def link_ok_def prop_ok_def)
    next
      case 3
      then have "node_ok a k n'" using wf_areaD(4) [OF assms(2)] by simp
      then show ?thesis using lk pk by (auto simp add: node_ok_def)
    qed
  qed
  have below: "k < pa_bytes_used a'" if "pa_data a' k \<noteq> None" for k
  proof (cases "k = off")
    case True
    then show ?thesis using off bu by simp
  next
    case False
    then have "pa_data a k \<noteq> None" using that d by simp
    then show ?thesis using wf_areaD(2) [OF assms(2)] bu(1) by fastforce
  qed
  show ?thesis
    unfolding wf_area_def
    using bu below ok mono [of 0] wf_areaD(3) [OF assms(2)] by auto
qed


lemma alloc_step_grows:
  assumes "alloc_step a a'" and "wf_area a"
  shows "pa_bytes_used a < pa_bytes_used a'" and "pa_data_size a' = pa_data_size a"
  using assms by (auto elim!: alloc_stepE)

section \<open>The traversal as a sequence of allocation steps\<close>

lemma find_prop_bt_no_alloc:
  "find_prop_bt k a cur name namelen alloc = Some (p, a') \<Longrightarrow> \<not> alloc \<Longrightarrow> a' = a"
  using find_prop_bt_result [of k a cur name namelen alloc p a'] by auto

lemma find_prop_bt_step:
  assumes "find_prop_bt k a cur name namelen alloc = Some (p, a')" and "namelen \<le> length name"
  shows "a' = a \<or> alloc_step a a'"
proof -
  from find_prop_bt_result [OF assms(1)]
  consider "a' = a"
    | c node ret off a1 where "get_bt a c = Some node" "next_link node ret = 0"
        "new_prop_bt a name namelen = Some (off, a1)" "a' = upd_bt a1 c (set_next ret off)"
    by blast
  then show ?thesis
  proof cases
    case 1
    then show ?thesis by simp
  next
    case 2
    have "bt_left node = 0 \<and> set_next ret off = (\<lambda>n. n\<lparr>bt_left := off\<rparr>) \<or>
          bt_right node = 0 \<and> set_next ret off = (\<lambda>n. n\<lparr>bt_right := off\<rparr>)"
      using 2(2) by (cases "ret < 0") (simp_all add: next_link_def set_next_eq)
    then have "alloc_step a a'"
      unfolding alloc_step_def using 2 assms(2) by blast
    then show ?thesis by simp
  qed
qed

lemma children_root_step:
  assumes "children_root a cur node name namelen alloc = (r, a1)"
      and "get_bt a cur = Some node" and "namelen \<le> length name"
  shows "a1 = a \<or> alloc_step a a1" and "\<not> alloc \<Longrightarrow> a1 = a"
proof -
  show "\<not> alloc \<Longrightarrow> a1 = a"
    using assms(1) by (auto simp add: children_root_def split: if_splits)
  show "a1 = a \<or> alloc_step a a1"
  proof (cases "bt_children node = 0 \<and> alloc \<and> new_prop_bt a name namelen \<noteq> None")
    case False
    then show ?thesis
      using assms(1) by (auto simp add: children_root_def split: if_splits option.splits)
  next
    case True
    then obtain off a0 where n: "new_prop_bt a name namelen = Some (off, a0)" by auto
    then have "a1 = upd_bt a0 cur (\<lambda>n. n\<lparr>bt_children := off\<rparr>)"
      using assms(1) True by (simp add: children_root_def)
    then have "alloc_step a a1"
      unfolding alloc_step_def using n True assms(2,3) by blast
    then show ?thesis by simp
  qed
qed

lemma seg_size_le: "seg_size name \<le> length name"
  by (auto simp add: seg_size_def split: option.splits dest: strchr_less)

lemma traverse_loop_unfold:
  "traverse_loop k a cur name alloc =
     (if seg_size name = 0 then Some (None, a)
      else case get_bt a cur of
             None \<Rightarrow> None
           | Some node \<Rightarrow>
               (case children_root a cur node name (seg_size name) alloc of
                  (None, a1) \<Rightarrow> Some (None, a1)
                | (Some root, a1) \<Rightarrow>
                    (case find_prop_bt k a1 (Some root) name (seg_size name) alloc of
                       None \<Rightarrow> None
                     | Some (None, a2) \<Rightarrow> Some (None, a2)
                     | Some (Some c, a2) \<Rightarrow>
                         (case strchr name CHR ''.'' of
                            None \<Rightarrow> Some (Some c, a2)
                          | Some i \<Rightarrow> traverse_loop k a2 c (drop (i + 1) name) alloc))))"
  by (subst traverse_loop.simps)
     (auto simp add: seg_size_def Let_def split: option.splits prod.splits)

lemma traverse_loop_cases:
  assumes "traverse_loop k a cur name alloc = Some (p, a')"
  obtains
    (empty) "seg_size name = 0" "p = None" "a' = a"
  | (noroot) node where "seg_size name \<noteq> 0" "get_bt a cur = Some node"
      "children_root a cur node name (seg_size name) alloc = (None, a')" "p = None"
  | (notfound) node root a1 where "seg_size name \<noteq> 0" "get_bt a cur = Some node"
      "children_root a cur node name (seg_size name) alloc = (Some root, a1)"
      "find_prop_bt k a1 (Some root) name (seg_size name) alloc = Some (None, a')" "p = None"
  | (last) node root a1 c where "seg_size name \<noteq> 0" "get_bt a cur = Some node"
      "children_root a cur node name (seg_size name) alloc = (Some root, a1)"
      "find_prop_bt k a1 (Some root) name (seg_size name) alloc = Some (Some c, a')"
      "strchr name CHR ''.'' = None" "p = Some c"
  | (more) node root a1 c a2 i where "seg_size name \<noteq> 0" "get_bt a cur = Some node"
      "children_root a cur node name (seg_size name) alloc = (Some root, a1)"
      "find_prop_bt k a1 (Some root) name (seg_size name) alloc = Some (Some c, a2)"
      "strchr name CHR ''.'' = Some i" "i < length name"
      "traverse_loop k a2 c (drop (i + 1) name) alloc = Some (p, a')"
  using assms
  by (subst (asm) traverse_loop_unfold)
     (auto split: if_splits option.splits prod.splits dest: strchr_less)

lemma traverse_loop_steps:
  assumes "traverse_loop k a cur name alloc = Some (p, a')"
  shows "alloc_step\<^sup>*\<^sup>* a a'" and "\<not> alloc \<Longrightarrow> a' = a"
proof -
  have "alloc_step\<^sup>*\<^sup>* a a' \<and> (\<not> alloc \<longrightarrow> a' = a)"
    using assms
  proof (induction "length name" arbitrary: a cur name rule: less_induct)
    case less
    note le = seg_size_le [of name]
    from less.prems show ?case
    proof (cases rule: traverse_loop_cases)
      case empty
      then show ?thesis by simp
    next
      case (noroot node)
      then show ?thesis
        using children_root_step [OF noroot(3) noroot(2) le] by auto
    next
      case (notfound node root a1)
      have "a1 = a \<or> alloc_step a a1" "\<not> alloc \<Longrightarrow> a1 = a"
        using children_root_step [OF notfound(3) notfound(2) le] by auto
      moreover have "a' = a1 \<or> alloc_step a1 a'"
        using find_prop_bt_step [OF notfound(4) le] .
      moreover have "\<not> alloc \<Longrightarrow> a' = a1"
        using find_prop_bt_no_alloc [OF notfound(4)] .
      ultimately show ?thesis by (auto intro: rtranclp.rtrancl_into_rtrancl)
    next
      case (last node root a1 c)
      have "a1 = a \<or> alloc_step a a1" "\<not> alloc \<Longrightarrow> a1 = a"
        using children_root_step [OF last(3) last(2) le] by auto
      moreover have "a' = a1 \<or> alloc_step a1 a'"
        using find_prop_bt_step [OF last(4) le] .
      moreover have "\<not> alloc \<Longrightarrow> a' = a1"
        using find_prop_bt_no_alloc [OF last(4)] .
      ultimately show ?thesis by (auto intro: rtranclp.rtrancl_into_rtrancl)
    next
      case (more node root a1 c a2 i)
      have 1: "a1 = a \<or> alloc_step a a1" "\<not> alloc \<Longrightarrow> a1 = a"
        using children_root_step [OF more(3) more(2) le] by auto
      have 2: "a2 = a1 \<or> alloc_step a1 a2"
        using find_prop_bt_step [OF more(4) le] .
      have 3: "\<not> alloc \<Longrightarrow> a2 = a1"
        using find_prop_bt_no_alloc [OF more(4)] .
      have "length (drop (i + 1) name) < length name" using more(6) by simp
      then have 4: "alloc_step\<^sup>*\<^sup>* a2 a' \<and> (\<not> alloc \<longrightarrow> a' = a2)"
        using less.hyps more(7) by blast
      have "alloc_step\<^sup>*\<^sup>* a a2"
        using 1(1) 2 by (auto intro: rtranclp.rtrancl_into_rtrancl)
      then show ?thesis using 4 1(2) 3 by (auto intro: rtranclp_trans)
    qed
  qed
  then show "alloc_step\<^sup>*\<^sup>* a a'" and "\<not> alloc \<Longrightarrow> a' = a" by simp_all
qed

lemma alloc_steps_wf: "alloc_step\<^sup>*\<^sup>* a a' \<Longrightarrow> wf_area a \<Longrightarrow> wf_area a'"
  by (induction rule: rtranclp_induct) (auto intro: alloc_step_wf)

lemma alloc_steps_grows:
  "alloc_step\<^sup>*\<^sup>* a a' \<Longrightarrow> wf_area a \<Longrightarrow>
     pa_bytes_used a \<le> pa_bytes_used a' \<and> pa_data_size a' = pa_data_size a"
proof (induction rule: rtranclp_induct)
  case base
  then show ?case by simp
next
  case (step y z)
  then have "wf_area y" using alloc_steps_wf by blast
  then show ?case using step alloc_step_grows [of y z] by auto
qed

section \<open>Constructing an entry\<close>

lemma alloc_step_bytes:
  assumes "alloc_step a a'"
  shows "pa_bytes_used a < pa_bytes_used a'" and "pa_data_size a' = pa_data_size a"
    and "4 dvd pa_bytes_used a \<Longrightarrow> 4 dvd pa_bytes_used a'"
proof -
  from assms obtain c name namelen off a1 f where
    nb: "new_prop_bt a name namelen = Some (off, a1)" and a': "a' = upd_bt a1 c f"
    unfolding alloc_step_def by blast
  show "pa_bytes_used a < pa_bytes_used a'" using new_prop_bt_Some(2) [OF nb] by (simp add: a')
  show "pa_data_size a' = pa_data_size a" using new_prop_bt_Some(4) [OF nb] by (simp add: a')
  show "4 dvd pa_bytes_used a \<Longrightarrow> 4 dvd pa_bytes_used a'"
    using nb BIONIC_ALIGN_4(2)
    by (auto simp add: a' new_prop_bt_def allocate_obj_def Let_def split: option.splits if_splits)
qed

lemma alloc_steps_bytes:
  "alloc_step\<^sup>*\<^sup>* a a' \<Longrightarrow>
     pa_bytes_used a \<le> pa_bytes_used a' \<and> pa_data_size a' = pa_data_size a \<and>
     (4 dvd pa_bytes_used a \<longrightarrow> 4 dvd pa_bytes_used a')"
proof (induction rule: rtranclp_induct)
  case base
  then show ?case by simp
next
  case (step y z)
  then show ?case using alloc_step_bytes [of y z] by auto
qed

text \<open>The four outcomes of \<^verbatim>\<open>new_prop_info\<close>.\<close>

lemma new_prop_info_cases:
  assumes "new_prop_info a name namelen value valuelen = (r, a2)"
  obtains
    (fail1) "r = None" "a2 = a"
  | (fail2) b where "r = None" "a2 = a\<lparr>pa_bytes_used := b\<rparr>" "pa_bytes_used a < b"
      "b \<le> pa_data_size a" "b = pa_bytes_used a + BIONIC_ALIGN (sizeof_prop_info + namelen + 1) 4"
  | (short) b where "valuelen < PROP_VALUE_MAX" "r = Some (pa_bytes_used a)"
      "a2 = put_obj (a\<lparr>pa_bytes_used := b\<rparr>) (pa_bytes_used a)
              (Info (prop_info_short name namelen value valuelen))"
      "pa_bytes_used a < b" "b \<le> pa_data_size a"
      "b = pa_bytes_used a + BIONIC_ALIGN (sizeof_prop_info + namelen + 1) 4"
  | (long) lo b where "PROP_VALUE_MAX \<le> valuelen" "r = Some (pa_bytes_used a)"
      "a2 = put_obj (put_obj (a\<lparr>pa_bytes_used := b\<rparr>) lo (LongValue (take valuelen value @ [NUL])))
              (pa_bytes_used a) (Info (prop_info_long name namelen (lo - pa_bytes_used a)))"
      "pa_bytes_used a < lo" "lo < b" "b \<le> pa_data_size a"
      "lo = pa_bytes_used a + BIONIC_ALIGN (sizeof_prop_info + namelen + 1) 4"
      "b = lo + BIONIC_ALIGN (valuelen + 1) 4"
proof (cases "allocate_obj a (sizeof_prop_info + namelen + 1)")
  case None
  then show ?thesis using assms fail1 by (simp add: new_prop_info_def)
next
  case (Some x)
  obtain off a1 where x: "x = (off, a1)" by (cases x)
  note f = allocate_obj_Some [OF Some [unfolded x]]
  have pos: "0 < BIONIC_ALIGN (sizeof_prop_info + namelen + 1) 4"
    using BIONIC_ALIGN_4(1) [of "sizeof_prop_info + namelen + 1"] by simp
  show ?thesis
  proof (cases "PROP_VALUE_MAX \<le> valuelen")
    case False
    show ?thesis
      by (rule short [of "pa_bytes_used a + BIONIC_ALIGN (sizeof_prop_info + namelen + 1) 4"])
         (use assms Some x f False pos in \<open>auto simp add: new_prop_info_def\<close>)
  next
    case True
    show ?thesis
    proof (cases "allocate_obj a1 (valuelen + 1)")
      case None
      show ?thesis
        by (rule fail2 [of "pa_bytes_used a + BIONIC_ALIGN (sizeof_prop_info + namelen + 1) 4"])
           (use assms Some x f True pos None in \<open>auto simp add: new_prop_info_def\<close>)
    next
      case (Some y)
      obtain lo a2' where y: "y = (lo, a2')" by (cases y)
      note g = allocate_obj_Some [OF Some [unfolded y]]
      have pos2: "0 < BIONIC_ALIGN (valuelen + 1) 4"
        using BIONIC_ALIGN_4(1) [of "valuelen + 1"] by simp
      show ?thesis
        by (rule long [where lo = lo and b = "lo + BIONIC_ALIGN (valuelen + 1) 4"])
           (use assms \<open>allocate_obj a (sizeof_prop_info + namelen + 1) = Some x\<close> x f True pos
              Some y g pos2 in \<open>auto simp add: new_prop_info_def Let_def\<close>)
    qed
  qed
qed


lemma long_flag_clear: "push_bit 24 x AND kLongFlag = 0"
  unfolding kLongFlag_def
  by (rule bit_eqI) (auto simp only: bit_and_iff bit_push_bit_iff bit_0_eq bit_1_iff simp_thms)

lemma long_flag_nonzero: "kLongFlag \<noteq> 0"
  by (simp add: kLongFlag_def)

lemma long_flag_set: "(x OR kLongFlag) AND kLongFlag \<noteq> 0"
proof -
  have "(x OR kLongFlag) AND kLongFlag = kLongFlag"
    by (rule bit_eqI) (auto simp add: bit_simps)
  then show ?thesis by (simp add: kLongFlag_def)
qed

lemma data_None_get:
  assumes "pa_data a k = None"
  shows "get_bt a k = None" "get_info a k = None" "get_blob a k = None"
  using assms by (simp_all add: get_bt_def get_info_def get_blob_def)

lemma bytes_used_update_simps [simp]:
  "get_bt (a\<lparr>pa_bytes_used := b\<rparr>) = get_bt a"
  "get_info (a\<lparr>pa_bytes_used := b\<rparr>) = get_info a"
  "get_blob (a\<lparr>pa_bytes_used := b\<rparr>) = get_blob a"
  "to_prop_obj (a\<lparr>pa_bytes_used := b\<rparr>) = to_prop_obj a"
  by (simp_all add: fun_eq_iff get_bt_def get_info_def get_blob_def to_prop_obj_def)

lemma wf_area_bump:
  assumes "wf_area a" and "pa_bytes_used a \<le> b" and "b \<le> pa_data_size a"
  shows "wf_area (a\<lparr>pa_bytes_used := b\<rparr>)"
proof -
  have "node_ok (a\<lparr>pa_bytes_used := b\<rparr>) off n = node_ok a off n" for off n
    by (simp add: node_ok_def link_ok_def prop_ok_def entry_ok_def cong: option.case_cong)
  then show ?thesis
    using assms by (auto simp add: wf_area_def)
qed

text \<open>
  Linking a new entry: the area after \<^verbatim>\<open>find_property\<close> has stored the offset of the entry
  that \<^verbatim>\<open>new_prop_info\<close> returned into the \<^verbatim>\<open>prop\<close> field of the node.
\<close>

lemma entry_linkE:
  assumes "new_prop_info a name namelen value valuelen = (Some off, a2)"
      and "wf_area a" and "get_bt a c = Some node"
      and "a' = upd_bt a2 c (\<lambda>n. n\<lparr>bt_prop := off\<rparr>)"
  obtains info blobs where
    "off = pa_bytes_used a" "c < off" "off \<noteq> 0"
    "pa_bytes_used a < pa_bytes_used a'" "pa_bytes_used a' \<le> pa_data_size a"
    "pa_data_size a' = pa_data_size a"
    "\<And>k. get_bt a' k = (if k = c then Some (node\<lparr>bt_prop := off\<rparr>) else get_bt a k)"
    "\<And>k. get_info a' k = (if k = off then Some info else get_info a k)"
    "\<And>k. get_blob a k \<noteq> None \<Longrightarrow> get_blob a' k = get_blob a k"
    "\<And>k. pa_data a' k \<noteq> None \<Longrightarrow> k < pa_bytes_used a'"
    "valuelen < PROP_VALUE_MAX \<Longrightarrow> info = prop_info_short name namelen value valuelen"
    "PROP_VALUE_MAX \<le> valuelen \<Longrightarrow>
       is_long info \<and> pi_name info = take namelen name \<and>
       pi_serial info = push_bit 24 (of_nat (length kLongLegacyError)) OR kLongFlag \<and>
       pi_value info = memcpy (replicate PROP_VALUE_MAX NUL) (kLongLegacyError @ [NUL])
                         (length kLongLegacyError + 1) \<and>
       get_blob a' (off + pi_long_offset info) = Some (take valuelen value @ [NUL])"
    "is_long info \<longrightarrow> get_blob a' (off + pi_long_offset info) \<noteq> None"
    "pa_serial a' = pa_serial a" "pa_dirty_backup a' = pa_dirty_backup a"
proof -
  have c: "c < pa_bytes_used a" using wf_area_below(1) [OF assms(2,3)] .
  have fresh: "pa_data a k = None" if "pa_bytes_used a \<le> k" for k
    using wf_areaD(2) [OF assms(2), of k] that by (cases "pa_data a k") auto
  have below: "pa_data a k \<noteq> None \<Longrightarrow> k < pa_bytes_used a" for k
    using wf_areaD(2) [OF assms(2)] .
  note fg = data_None_get [OF fresh]
  from assms(1) show thesis
  proof (cases rule: new_prop_info_cases)
    case fail1
    then show ?thesis by simp
  next
    case (fail2 b)
    then show ?thesis by simp
  next
    case (short b)
    define info where "info = prop_info_short name namelen value valuelen"
    have off: "off = pa_bytes_used a" using short(2) by simp
    have a2: "a2 = put_obj (a\<lparr>pa_bytes_used := b\<rparr>) off (Info info)"
      using short(3) off by (simp add: info_def)
    have nl: "\<not> is_long info"
      using short(1) 
      by (simp add: info_def is_long_def prop_info_short_def long_flag_clear)
    show ?thesis
    proof (rule that [of info])
      show "off = pa_bytes_used a" by (rule off)
      show "c < off" using c off by simp
      show "off \<noteq> 0" using c off by simp
      show "pa_bytes_used a < pa_bytes_used a'" using short(4) by (simp add: assms(4) a2)
      show "pa_bytes_used a' \<le> pa_data_size a" using short(5) by (simp add: assms(4) a2)
      show "pa_data_size a' = pa_data_size a" by (simp add: assms(4) a2)
      show "get_bt a' k = (if k = c then Some (node\<lparr>bt_prop := off\<rparr>) else get_bt a k)" for k
        using c off assms(3) fg(1) [of off]
        by (auto simp add: assms(4) a2 get_upd_bt get_put_obj)
      show "get_info a' k = (if k = off then Some info else get_info a k)" for k
        by (simp add: assms(4) a2 get_upd_bt get_put_obj)
      show "get_blob a k \<noteq> None \<Longrightarrow> get_blob a' k = get_blob a k" for k
        using fg(3) [of off] off
        by (auto simp add: assms(4) a2 get_upd_bt get_put_obj)
      show "pa_data a' k \<noteq> None \<Longrightarrow> k < pa_bytes_used a'" for k
        using below [of k] short(4) off
        by (auto simp add: assms(4) a2 data_upd_bt_None split: if_splits)
      show "valuelen < PROP_VALUE_MAX \<Longrightarrow> info = prop_info_short name namelen value valuelen"
        by (simp add: info_def)
      show "PROP_VALUE_MAX \<le> valuelen \<Longrightarrow>
       is_long info \<and> pi_name info = take namelen name \<and>
       pi_serial info = push_bit 24 (of_nat (length kLongLegacyError)) OR kLongFlag \<and>
       pi_value info = memcpy (replicate PROP_VALUE_MAX NUL) (kLongLegacyError @ [NUL])
                         (length kLongLegacyError + 1) \<and>
       get_blob a' (off + pi_long_offset info) = Some (take valuelen value @ [NUL])"
        using short(1) by simp
      show "is_long info \<longrightarrow> get_blob a' (off + pi_long_offset info) \<noteq> None"
        using nl by simp
      show "pa_serial a' = pa_serial a" "pa_dirty_backup a' = pa_dirty_backup a"
        by (simp_all add: assms(4) a2)
    qed
  next
    case (long lo b)
    define info where "info = prop_info_long name namelen (lo - pa_bytes_used a)"
    have off: "off = pa_bytes_used a" using long(2) by simp
    have a2: "a2 = put_obj (put_obj (a\<lparr>pa_bytes_used := b\<rparr>) lo
                      (LongValue (take valuelen value @ [NUL]))) off (Info info)"
      using long(3) off by (simp add: info_def)
    have lo: "off + pi_long_offset info = lo" "off \<noteq> lo"
      using long(4) off by (simp_all add: info_def prop_info_long_def Let_def)
    have il: "is_long info"
      by (simp add: info_def is_long_def prop_info_long_def Let_def long_flag_nonzero)
    show ?thesis
    proof (rule that [of info])
      show "off = pa_bytes_used a" by (rule off)
      show "c < off" using c off by simp
      show "off \<noteq> 0" using c off by simp
      show "pa_bytes_used a < pa_bytes_used a'" using long(4,5) by (simp add: assms(4) a2)
      show "pa_bytes_used a' \<le> pa_data_size a" using long(6) by (simp add: assms(4) a2)
      show "pa_data_size a' = pa_data_size a" by (simp add: assms(4) a2)
      show "get_bt a' k = (if k = c then Some (node\<lparr>bt_prop := off\<rparr>) else get_bt a k)" for k
        using c off assms(3) fg(1) [of off] fg(1) [of lo] long(4)
        by (auto simp add: assms(4) a2 get_upd_bt get_put_obj)
      show "get_info a' k = (if k = off then Some info else get_info a k)" for k
        using fg(2) [of lo] long(4) off
        by (auto simp add: assms(4) a2 get_upd_bt get_put_obj)
      show "get_blob a k \<noteq> None \<Longrightarrow> get_blob a' k = get_blob a k" for k
        using fg(3) [of off] fg(3) [of lo] off long(4)
        by (auto simp add: assms(4) a2 get_upd_bt get_put_obj)
      show "pa_data a' k \<noteq> None \<Longrightarrow> k < pa_bytes_used a'" for k
        using below [of k] long(4,5) off
        by (auto simp add: assms(4) a2 data_upd_bt_None split: if_splits)
      show "valuelen < PROP_VALUE_MAX \<Longrightarrow> info = prop_info_short name namelen value valuelen"
        using long(1) by simp
      have gb: "get_blob a' (off + pi_long_offset info) = Some (take valuelen value @ [NUL])"
        using lo by (simp add: assms(4) a2 get_upd_bt get_put_obj)
      show "PROP_VALUE_MAX \<le> valuelen \<Longrightarrow>
       is_long info \<and> pi_name info = take namelen name \<and>
       pi_serial info = push_bit 24 (of_nat (length kLongLegacyError)) OR kLongFlag \<and>
       pi_value info = memcpy (replicate PROP_VALUE_MAX NUL) (kLongLegacyError @ [NUL])
                         (length kLongLegacyError + 1) \<and>
       get_blob a' (off + pi_long_offset info) = Some (take valuelen value @ [NUL])"
        using il gb
        by (simp add: info_def prop_info_long_def Let_def is_long_def long_flag_nonzero)
      show "is_long info \<longrightarrow> get_blob a' (off + pi_long_offset info) \<noteq> None"
        using gb by simp
      show "pa_serial a' = pa_serial a" "pa_dirty_backup a' = pa_dirty_backup a"
        by (simp_all add: assms(4) a2)
    qed
  qed
qed


lemma entry_link_wf:
  assumes "new_prop_info a name namelen value valuelen = (Some off, a2)"
      and "wf_area a" and "get_bt a c = Some node"
  shows "wf_area (upd_bt a2 c (\<lambda>n. n\<lparr>bt_prop := off\<rparr>))"
proof -
  define a' where "a' = upd_bt a2 c (\<lambda>n. n\<lparr>bt_prop := off\<rparr>)"
  from assms a'_def obtain info where
    off: "off = pa_bytes_used a" "c < off"
    and bu: "pa_bytes_used a < pa_bytes_used a'" "pa_bytes_used a' \<le> pa_data_size a"
      "pa_data_size a' = pa_data_size a"
    and g: "\<And>k. get_bt a' k = (if k = c then Some (node\<lparr>bt_prop := off\<rparr>) else get_bt a k)"
    and i: "\<And>k. get_info a' k = (if k = off then Some info else get_info a k)"
    and l: "\<And>k. get_blob a k \<noteq> None \<Longrightarrow> get_blob a' k = get_blob a k"
    and d: "\<And>k. pa_data a' k \<noteq> None \<Longrightarrow> k < pa_bytes_used a'"
    and il: "is_long info \<longrightarrow> get_blob a' (off + pi_long_offset info) \<noteq> None"
    by (rule entry_linkE) blast
  have fresh: "get_info a off = None"
    using wf_area_below(2) [OF assms(2), of off] off(1) by (cases "get_info a off") auto
  have mono: "get_bt a k \<noteq> None \<Longrightarrow> get_bt a' k \<noteq> None" for k
    using assms(3) by (simp add: g)
  have lk: "link_ok a k x \<Longrightarrow> link_ok a' k x" for k x
    using mono by (auto simp add: link_ok_def)
  have ek: "entry_ok a x \<Longrightarrow> entry_ok a' x" for x
    using fresh l by (cases "x = off") (auto simp add: entry_ok_def i split: option.splits)
  have pk: "prop_ok a k x \<Longrightarrow> prop_ok a' k x" for k x
    using ek by (auto simp add: prop_ok_def)
  have newp: "prop_ok a' c off"
    using off(2) il by (simp add: prop_ok_def entry_ok_def i)
  have ok: "node_ok a' k n'" if h: "get_bt a' k = Some n'" for k n'
  proof (cases "k = c")
    case True
    then have n': "n' = node\<lparr>bt_prop := off\<rparr>" using h by (simp add: g)
    have "node_ok a c node" using wf_areaD(4) [OF assms(2,3)] .
    then show ?thesis using newp lk True by (auto simp add: n' node_ok_def)
  next
    case False
    then have "node_ok a k n'" using h wf_areaD(4) [OF assms(2)] by (simp add: g)
    then show ?thesis using lk pk by (auto simp add: node_ok_def)
  qed
  have "wf_area a'"
    unfolding wf_area_def
    using bu d ok mono [of 0] wf_areaD(3) [OF assms(2)] by auto
  then show ?thesis by (simp add: a'_def)
qed

lemma new_prop_info_fail_wf:
  assumes "new_prop_info a name namelen value valuelen = (None, a2)" and "wf_area a"
  shows "wf_area a2"
  using assms(1)
proof (cases rule: new_prop_info_cases)
  case fail1
  then show ?thesis using assms(2) by simp
next
  case (fail2 b)
  then show ?thesis using wf_area_bump [OF assms(2), of b] by simp
qed simp_all

lemma new_prop_info_bytes:
  assumes "new_prop_info a name namelen value valuelen = (r, a2)"
  shows "pa_bytes_used a \<le> pa_bytes_used a2" and "pa_data_size a2 = pa_data_size a"
    and "4 dvd pa_bytes_used a \<Longrightarrow> 4 dvd pa_bytes_used a2"
  using assms BIONIC_ALIGN_4(2)
  by (cases rule: new_prop_info_cases; simp)+

section \<open>\<^verbatim>\<open>find_property\<close>\<close>

lemma traverse_trie_Some [simp]:
  "traverse_trie k a (Some t) name alloc = traverse_loop k a t name alloc"
  by (simp add: traverse_trie_def)

lemma root_node_eq [simp]: "root_node a = Some 0"
  by (simp add: root_node_def to_prop_obj_def)

lemma find_property_cases:
  assumes "find_property k a (Some t) name namelen value valuelen alloc = Some (p, a')"
  obtains
    (nonode) "traverse_loop k a t name alloc = Some (None, a')" "p = None"
  | (found) c node where "traverse_loop k a t name alloc = Some (Some c, a')"
      "get_bt a' c = Some node" "bt_prop node \<noteq> 0" "p = to_prop_obj a' (bt_prop node)"
  | (absent) c node where "traverse_loop k a t name alloc = Some (Some c, a')"
      "get_bt a' c = Some node" "bt_prop node = 0" "\<not> alloc" "p = None"
  | (full) c node a1 where "traverse_loop k a t name alloc = Some (Some c, a1)"
      "get_bt a1 c = Some node" "bt_prop node = 0" "alloc"
      "new_prop_info a1 name namelen value valuelen = (None, a')" "p = None"
  | (created) c node a1 off a2 where "traverse_loop k a t name alloc = Some (Some c, a1)"
      "get_bt a1 c = Some node" "bt_prop node = 0" "alloc"
      "new_prop_info a1 name namelen value valuelen = (Some off, a2)" "p = Some off"
      "a' = upd_bt a2 c (\<lambda>n. n\<lparr>bt_prop := off\<rparr>)"
  using assms
  by (auto simp add: find_property_def split: option.splits if_splits prod.splits)

lemma find_property_wf:
  assumes "find_property k a (Some t) name namelen value valuelen alloc = Some (p, a')"
      and "wf_area a"
  shows "wf_area a'"
  using assms(1)
proof (cases rule: find_property_cases)
  case nonode
  then show ?thesis using traverse_loop_steps(1) alloc_steps_wf assms(2) by blast
next
  case (found c node)
  then show ?thesis using traverse_loop_steps(1) alloc_steps_wf assms(2) by blast
next
  case (absent c node)
  then show ?thesis using traverse_loop_steps(1) alloc_steps_wf assms(2) by blast
next
  case (full c node a1)
  then have "wf_area a1" using traverse_loop_steps(1) alloc_steps_wf assms(2) by blast
  then show ?thesis using new_prop_info_fail_wf full(5) by blast
next
  case (created c node a1 off a2)
  then have "wf_area a1" using traverse_loop_steps(1) alloc_steps_wf assms(2) by blast
  then show ?thesis using entry_link_wf [OF created(5) _ created(2)] created(7) by simp
qed

lemma find_property_bytes:
  assumes "find_property k a (Some t) name namelen value valuelen alloc = Some (p, a')"
  shows "pa_bytes_used a \<le> pa_bytes_used a'" and "pa_data_size a' = pa_data_size a"
    and "4 dvd pa_bytes_used a \<Longrightarrow> 4 dvd pa_bytes_used a'"
    and "\<not> alloc \<Longrightarrow> a' = a"
proof -
  have "pa_bytes_used a \<le> pa_bytes_used a' \<and> pa_data_size a' = pa_data_size a \<and>
        (4 dvd pa_bytes_used a \<longrightarrow> 4 dvd pa_bytes_used a') \<and> (\<not> alloc \<longrightarrow> a' = a)"
    using assms
  proof (cases rule: find_property_cases)
    case nonode
    then show ?thesis
      using traverse_loop_steps [OF nonode(1)] alloc_steps_bytes [of a a'] by auto
  next
    case (found c node)
    then show ?thesis
      using traverse_loop_steps [OF found(1)] alloc_steps_bytes [of a a'] by auto
  next
    case (absent c node)
    then show ?thesis
      using traverse_loop_steps [OF absent(1)] alloc_steps_bytes [of a a'] by auto
  next
    case (full c node a1)
    then show ?thesis
      using traverse_loop_steps [OF full(1)] alloc_steps_bytes [of a a1]
        new_prop_info_bytes [OF full(5)] by auto
  next
    case (created c node a1 off a2)
    then show ?thesis
      using traverse_loop_steps [OF created(1)] alloc_steps_bytes [of a a1]
        new_prop_info_bytes [OF created(5)] by auto
  qed
  then show "pa_bytes_used a \<le> pa_bytes_used a'" and "pa_data_size a' = pa_data_size a"
    and "4 dvd pa_bytes_used a \<Longrightarrow> 4 dvd pa_bytes_used a'"
    and "\<not> alloc \<Longrightarrow> a' = a" by simp_all
qed

section \<open>Pruning\<close>

lemma clear_lnk_eq:
  "clear_lnk L_children = (\<lambda>n. n\<lparr>bt_children := 0\<rparr>)"
  "clear_lnk L_left = (\<lambda>n. n\<lparr>bt_left := 0\<rparr>)"
  "clear_lnk L_right = (\<lambda>n. n\<lparr>bt_right := 0\<rparr>)"
  by (simp_all add: fun_eq_iff)

lemma prune_trie_Suc:
  "prune_trie (Suc k) a (Some nd) =
     (case get_bt a nd of
        None \<Rightarrow> None
      | Some n0 \<Rightarrow>
          (case prune_link (prune_trie k) a nd (bt_children n0) (clear_lnk L_children) True of
             None \<Rightarrow> None
           | Some (leaf1, a1) \<Rightarrow>
               (case get_bt a1 nd of
                  None \<Rightarrow> None
                | Some n1 \<Rightarrow>
                    (case prune_link (prune_trie k) a1 nd (bt_left n1) (clear_lnk L_left) leaf1 of
                       None \<Rightarrow> None
                     | Some (leaf2, a2) \<Rightarrow>
                         (case get_bt a2 nd of
                            None \<Rightarrow> None
                          | Some n2 \<Rightarrow>
                              (case prune_link (prune_trie k) a2 nd (bt_right n2)
                                      (clear_lnk L_right) leaf2 of
                                 None \<Rightarrow> None
                               | Some (is_leaf, a3) \<Rightarrow>
                                   (case get_bt a3 nd of
                                      None \<Rightarrow> None
                                    | Some n3 \<Rightarrow>
                                        if is_leaf \<and> bt_prop n3 = 0
                                        then Some (True, wipe_bt a3 nd)
                                        else Some (False, a3))))))))"
  by (simp add: prune_link_def clear_lnk_eq split: option.splits bool.splits prod.splits)

lemma prune_trie_None [simp]: "prune_trie k a None = None"
  by (cases k) simp_all

declare prune_trie.simps(2) [simp del]


lemma wipe_bt_simps [simp]:
  "pa_bytes_used (wipe_bt a nd) = pa_bytes_used a"
  "pa_data_size (wipe_bt a nd) = pa_data_size a"
  "pa_serial (wipe_bt a nd) = pa_serial a"
  "pa_dirty_backup (wipe_bt a nd) = pa_dirty_backup a"
  "to_prop_obj (wipe_bt a nd) l = to_prop_obj a l"
  by (simp_all add: wipe_bt_def)

lemma node_shrunk_refl [simp]: "node_shrunk n n"
  by (simp add: node_shrunk_def)

lemma node_shrunk_clear [simp]: "node_shrunk n (clear_lnk x n)"
  by (cases x) (simp_all add: node_shrunk_def)

lemma node_shrunk_zero [simp]: "node_shrunk n zero_bt"
  by (simp add: node_shrunk_def)

lemma node_shrunk_trans: "node_shrunk n n' \<Longrightarrow> node_shrunk n' n'' \<Longrightarrow> node_shrunk n n''"
  by (auto simp add: node_shrunk_def zero_bt_def)

lemma pruned_refl [simp]: "pruned a a"
  by (simp add: pruned_def)

lemma prunedD:
  assumes "pruned a a'"
  shows "pa_bytes_used a' = pa_bytes_used a" "pa_data_size a' = pa_data_size a"
    "pa_serial a' = pa_serial a" "pa_dirty_backup a' = pa_dirty_backup a"
    "get_info a' off = get_info a off" "get_blob a' off = get_blob a off"
    "pa_data a' off = None \<longleftrightarrow> pa_data a off = None"
    "get_bt a off = None \<Longrightarrow> get_bt a' off = None"
    "get_bt a off = Some n \<Longrightarrow> \<exists>n'. get_bt a' off = Some n' \<and> node_shrunk n n'"
  using assms by (auto simp add: pruned_def)

lemma pruned_trans:
  assumes "pruned a a'" and "pruned a' a''"
  shows "pruned a a''"
proof -
  have "\<exists>n''. get_bt a'' off = Some n'' \<and> node_shrunk n n''" if h: "get_bt a off = Some n" for off n
  proof -
    obtain n' where "get_bt a' off = Some n'" "node_shrunk n n'"
      using prunedD(9) [OF assms(1) h] by blast
    moreover then obtain n'' where "get_bt a'' off = Some n''" "node_shrunk n' n''"
      using prunedD(9) [OF assms(2)] by blast
    ultimately show ?thesis using node_shrunk_trans by blast
  qed
  moreover have "get_bt a off = None \<Longrightarrow> get_bt a'' off = None" for off
    using prunedD(8) [OF assms(1)] prunedD(8) [OF assms(2)] by simp
  ultimately show ?thesis
    using prunedD(1-7) [OF assms(1)] prunedD(1-7) [OF assms(2)]
    unfolding pruned_def by simp
qed

lemma pruned_upd_bt:
  assumes "\<And>n. node_shrunk n (f n)"
  shows "pruned a (upd_bt a nd f)"
  using assms by (auto simp add: pruned_def get_upd_bt data_upd_bt_None)

lemma pruned_wipe:
  assumes "get_bt a nd = Some n"
  shows "pruned a (wipe_bt a nd)"
proof -
  have "get_info a nd = None" "get_blob a nd = None" "pa_data a nd \<noteq> None"
    using assms by (simp_all add: get_bt_Some get_info_def get_blob_def)
  then show ?thesis
    using assms by (auto simp add: pruned_def wipe_bt_def get_put_obj)
qed

lemma prune_step_pruned: "prune_step a a' \<Longrightarrow> pruned a a'"
  unfolding prune_step_def by (auto intro: pruned_upd_bt pruned_wipe)

lemma prune_steps_pruned: "prune_step\<^sup>*\<^sup>* a a' \<Longrightarrow> pruned a a'"
  by (induction rule: rtranclp_induct) (auto intro: pruned_trans prune_step_pruned)


lemma node_shrunk_lnk:
  assumes "node_shrunk n n'"
  shows "get_lnk x n' = 0 \<or> get_lnk x n' = get_lnk x n"
  using assms by (cases x) (auto simp add: node_shrunk_def zero_bt_def)

lemma get_lnk_clear [simp]: "get_lnk x (clear_lnk x n) = 0"
  by (cases x) simp_all

lemma get_bt_wipe: "get_bt (wipe_bt a nd) k = (if k = nd then Some zero_bt else get_bt a k)"
  by (simp add: wipe_bt_def get_put_obj)

lemma prune_link_steps:
  assumes IH: "\<forall>a p r a'. prune_trie k a p = Some (r, a') \<longrightarrow>
                 prune_step\<^sup>*\<^sup>* a a' \<and> (r \<longrightarrow> (\<exists>c. p = Some c \<and> get_bt a' c = Some zero_bt))"
      and pl: "prune_link (prune_trie k) a nd (get_lnk x n) (clear_lnk x) leaf = Some (leaf', a1)"
      and n: "get_bt a nd = Some n"
  shows "prune_step\<^sup>*\<^sup>* a a1" and "leaf' \<Longrightarrow> leaf"
    and "leaf' \<Longrightarrow> \<exists>n1. get_bt a1 nd = Some n1 \<and> get_lnk x n1 = 0"
proof -
  have "prune_step\<^sup>*\<^sup>* a a1 \<and> (leaf' \<longrightarrow> leaf \<and> (\<exists>n1. get_bt a1 nd = Some n1 \<and> get_lnk x n1 = 0))"
  proof (cases "get_lnk x n = 0")
    case True
    then show ?thesis using pl n by (simp add: prune_link_def)
  next
    case False
    then obtain r a' where rec: "prune_trie k a (to_prop_obj a (get_lnk x n)) = Some (r, a')"
      using pl by (auto simp add: prune_link_def split: option.splits)
    then have to: "to_prop_obj a (get_lnk x n) = Some (get_lnk x n)"
      by (cases "to_prop_obj a (get_lnk x n)") (auto simp add: to_prop_obj_def split: if_splits)
    note ih = IH [rule_format, OF rec]
    have st: "prune_step\<^sup>*\<^sup>* a a'" using ih by simp
    show ?thesis
    proof (cases r)
      case False
      then show ?thesis using pl rec \<open>get_lnk x n \<noteq> 0\<close> st by (simp add: prune_link_def)
    next
      case True
      then have z: "get_bt a' (get_lnk x n) = Some zero_bt" using ih to by simp
      have a1: "a1 = upd_bt a' nd (clear_lnk x)" and l: "leaf' = leaf"
        using pl rec \<open>get_lnk x n \<noteq> 0\<close> True by (simp_all add: prune_link_def)
      obtain n' where n': "get_bt a' nd = Some n'" "node_shrunk n n'"
        using prunedD(9) [OF prune_steps_pruned [OF st] n] by blast
      have "get_lnk x n' = 0 \<or> get_bt a' (get_lnk x n') = Some zero_bt"
        using node_shrunk_lnk [OF n'(2), of x] z by auto
      then have "prune_step a' a1"
        unfolding prune_step_def a1 using n'(1) by blast
      then have "prune_step\<^sup>*\<^sup>* a a1" using st by (rule rtranclp.rtrancl_into_rtrancl [rotated])
      moreover have "get_bt a1 nd = Some (clear_lnk x n')"
        using n'(1) by (simp add: a1 get_upd_bt)
      ultimately show ?thesis using l by simp
    qed
  qed
  then show "prune_step\<^sup>*\<^sup>* a a1" and "leaf' \<Longrightarrow> leaf"
    and "leaf' \<Longrightarrow> \<exists>n1. get_bt a1 nd = Some n1 \<and> get_lnk x n1 = 0" by simp_all
qed

lemma prune_trie_steps:
  "prune_trie k a p = Some (r, a') \<Longrightarrow>
     prune_step\<^sup>*\<^sup>* a a' \<and> (r \<longrightarrow> (\<exists>c. p = Some c \<and> get_bt a' c = Some zero_bt))"
proof (induction k arbitrary: a p r a')
  case 0
  then show ?case by simp
next
  case (Suc k)
  then obtain nd where p: "p = Some nd" by (cases p) auto
  from Suc.prems obtain n0 leaf1 a1 n1 leaf2 a2 n2 is_leaf a3 n3 where
    n0: "get_bt a nd = Some n0"
    and s1: "prune_link (prune_trie k) a nd (get_lnk L_children n0) (clear_lnk L_children) True
               = Some (leaf1, a1)"
    and n1: "get_bt a1 nd = Some n1"
    and s2: "prune_link (prune_trie k) a1 nd (get_lnk L_left n1) (clear_lnk L_left) leaf1
               = Some (leaf2, a2)"
    and n2: "get_bt a2 nd = Some n2"
    and s3: "prune_link (prune_trie k) a2 nd (get_lnk L_right n2) (clear_lnk L_right) leaf2
               = Some (is_leaf, a3)"
    and n3: "get_bt a3 nd = Some n3"
    and fin: "(r, a') = (if is_leaf \<and> bt_prop n3 = 0 then (True, wipe_bt a3 nd) else (False, a3))"
    unfolding p prune_trie_Suc
    by (auto split: option.splits prod.splits if_splits)
  have ih: "\<forall>a p r a'. prune_trie k a p = Some (r, a') \<longrightarrow>
                 prune_step\<^sup>*\<^sup>* a a' \<and> (r \<longrightarrow> (\<exists>c. p = Some c \<and> get_bt a' c = Some zero_bt))"
    using Suc.IH by blast
  note l1 = prune_link_steps [OF ih s1 n0]
  note l2 = prune_link_steps [OF ih s2 n1]
  note l3 = prune_link_steps [OF ih s3 n2]
  have st: "prune_step\<^sup>*\<^sup>* a a3" using l1(1) l2(1) l3(1) by auto
  show ?case
  proof (cases "is_leaf \<and> bt_prop n3 = 0")
    case False
    then have "(r, a') = (False, a3)" using fin by (simp split: if_splits)
    then show ?thesis using st by simp
  next
    case True
    then have "leaf2" "leaf1" using l3(2) l2(2) by auto
    have c1: "get_lnk L_children n1 = 0" using l1(3) [OF \<open>leaf1\<close>] n1 by simp
    obtain m2 where "get_bt a2 nd = Some m2" "node_shrunk n1 m2"
      using prunedD(9) [OF prune_steps_pruned [OF l2(1)] n1] by blast
    then have c2: "get_lnk L_children n2 = 0" "node_shrunk n1 n2"
      using node_shrunk_lnk [of n1 m2 L_children] c1 n2 by auto
    have b2: "get_lnk L_left n2 = 0" using l2(3) [OF \<open>leaf2\<close>] n2 by simp
    obtain m3 where "get_bt a3 nd = Some m3" "node_shrunk n2 m3"
      using prunedD(9) [OF prune_steps_pruned [OF l3(1)] n2] by blast
    then have c3: "get_lnk L_children n3 = 0" "get_lnk L_left n3 = 0"
      using node_shrunk_lnk [of n2 m3 L_children] node_shrunk_lnk [of n2 m3 L_left] c2 b2 n3
      by auto
    have d3: "get_lnk L_right n3 = 0" using l3(3) n3 True by auto
    have "prune_step a3 (wipe_bt a3 nd)"
      unfolding prune_step_def using n3 c3 d3 True by auto
    then have "prune_step\<^sup>*\<^sup>* a (wipe_bt a3 nd)"
      using st by (rule rtranclp.rtrancl_into_rtrancl [rotated])
    moreover have "(r, a') = (True, wipe_bt a3 nd)" using fin True by simp
    ultimately show ?thesis using p by (simp add: get_bt_wipe)
  qed
qed

lemma node_shrunk_fields:
  assumes "node_shrunk n n'"
  shows "bt_left n' = 0 \<or> bt_left n' = bt_left n"
    and "bt_right n' = 0 \<or> bt_right n' = bt_right n"
    and "bt_children n' = 0 \<or> bt_children n' = bt_children n"
    and "bt_prop n' = 0 \<or> bt_prop n' = bt_prop n"
    and "bt_namelen n = length (bt_name n) \<Longrightarrow> bt_namelen n' = length (bt_name n')"
  using assms unfolding node_shrunk_def zero_bt_def by auto

lemma link_ok_zero [simp]: "link_ok a k 0"
  by (simp add: link_ok_def)

lemma prop_ok_zero [simp]: "prop_ok a k 0"
  by (simp add: prop_ok_def)

lemma pruned_wf:
  assumes "pruned a a'" and "wf_area a"
  shows "wf_area a'"
proof -
  have lk: "link_ok a' k x" if h: "link_ok a k x" for k x
  proof (cases "x = 0")
    case True
    then show ?thesis by simp
  next
    case False
    then obtain m where "k < x" "get_bt a x = Some m" using h by (auto simp add: link_ok_def)
    then show ?thesis using prunedD(9) [OF assms(1), of x m] by (auto simp add: link_ok_def)
  qed
  have ek: "entry_ok a' x = entry_ok a x" for x
    by (simp add: entry_ok_def prunedD(5,6) [OF assms(1)] cong: option.case_cong)
  have pk: "prop_ok a' k x = prop_ok a k x" for k x
    by (simp add: prop_ok_def ek)
  have ok: "node_ok a' k n'" if h: "get_bt a' k = Some n'" for k n'
  proof -
    obtain n where n: "get_bt a k = Some n"
      using prunedD(8) [OF assms(1), of k] h by (cases "get_bt a k") auto
    then have s: "node_shrunk n n'" using prunedD(9) [OF assms(1) n] h by simp
    have o: "link_ok a k (bt_left n)" "link_ok a k (bt_right n)" "link_ok a k (bt_children n)"
      "prop_ok a k (bt_prop n)" "bt_namelen n = length (bt_name n)"
      using wf_areaD(4) [OF assms(2) n] by (simp_all add: node_ok_def)
    note f = node_shrunk_fields [OF s]
    have "link_ok a' k (bt_left n')" using f(1) lk [OF o(1)] by auto
    moreover have "link_ok a' k (bt_right n')" using f(2) lk [OF o(2)] by auto
    moreover have "link_ok a' k (bt_children n')" using f(3) lk [OF o(3)] by auto
    moreover have "prop_ok a' k (bt_prop n')" using f(4) o(4) pk by auto
    moreover have "bt_namelen n' = length (bt_name n')" using f(5) o(5) by simp
    ultimately show ?thesis by (simp add: node_ok_def)
  qed
  have "get_bt a' 0 \<noteq> None"
    using wf_areaD(3) [OF assms(2)] prunedD(9) [OF assms(1), of 0] by auto
  moreover have "k < pa_bytes_used a'" if "pa_data a' k \<noteq> None" for k
    using that wf_areaD(2) [OF assms(2), of k] prunedD(1,7) [OF assms(1)] by simp
  ultimately show ?thesis
    unfolding wf_area_def
    using ok wf_areaD(1) [OF assms(2)] prunedD(1,2) [OF assms(1)] by auto
qed

lemma prune_trie_wf:
  assumes "prune_trie k a p = Some (r, a')" and "wf_area a"
  shows "wf_area a'" and "pa_bytes_used a' = pa_bytes_used a" and "pruned a a'"
proof -
  show p: "pruned a a'" using prune_trie_steps [OF assms(1)] prune_steps_pruned by blast
  show "wf_area a'" using pruned_wf [OF p assms(2)] .
  show "pa_bytes_used a' = pa_bytes_used a" using prunedD(1) [OF p] .
qed

section \<open>\<^verbatim>\<open>remove\<close>\<close>

lemma remove_unfold:
  assumes "traverse_loop k a 0 name False = Some (Some node, a)" "get_bt a node = Some n"
    "bt_prop n \<noteq> 0"
  shows "prop_area_remove k a name prune = 
          (case to_prop_obj a (bt_prop n) of
                  None \<Rightarrow> None
                | Some p \<Rightarrow>
                    (case get_info a p of
                       None \<Rightarrow> None
                     | Some info \<Rightarrow>
                         (case (if is_long info
                                then clear_long_value (upd_bt a node (\<lambda>n. n\<lparr>bt_prop := 0\<rparr>)) p info
                                else Some (upd_bt a node (\<lambda>n. n\<lparr>bt_prop := 0\<rparr>))) of
                            None \<Rightarrow> None
                          | Some a3 \<Rightarrow>
                              if prune
                              then map_option (\<lambda>(r, a5). (True, a5))
                                     (prune_trie k (put_obj a3 p (Info zero_info)) (Some 0))
                              else Some (True, put_obj a3 p (Info zero_info)))))"
  using assms by (simp add: prop_area_remove_def Let_def cong: option.case_cong if_cong)

lemma remove_cases:
  assumes "prop_area_remove k a name prune = Some (r, a')"
  obtains
    (nonode) "traverse_loop k a 0 name False = Some (None, a)" "\<not> r" "a' = a"
  | (noprop) node n where "traverse_loop k a 0 name False = Some (Some node, a)"
      "get_bt a node = Some n" "bt_prop n = 0" "\<not> r" "a' = a"
  | (removed) node p where "traverse_loop k a 0 name False = Some (Some node, a)"
      "unlinked a node p a'" "r" "\<not> prune"
  | (pruned) node p a4 r' where "traverse_loop k a 0 name False = Some (Some node, a)"
      "unlinked a node p a4" "r" "prune" "prune_trie k a4 (Some 0) = Some (r', a')"
proof -
  obtain q a1 where t: "traverse_loop k a 0 name False = Some (q, a1)"
    using assms by (cases "traverse_loop k a 0 name False") (auto simp add: prop_area_remove_def)
  have a1: "a1 = a" using traverse_loop_steps(2) [OF t] by simp
  show thesis
  proof (cases q)
    case None
    then have t': "traverse_loop k a 0 name False = Some (None, a)" using t a1 by simp
    then have "\<not> r \<and> a' = a" using assms by (simp add: prop_area_remove_def)
    then show ?thesis using nonode t' by blast
  next
    case (Some node)
    then have t': "traverse_loop k a 0 name False = Some (Some node, a)" using t a1 by simp
    then obtain n where n: "get_bt a node = Some n"
      using assms by (cases "get_bt a node") (auto simp add: prop_area_remove_def)
    show ?thesis
    proof (cases "bt_prop n = 0")
      case True
      then have "\<not> r \<and> a' = a" using assms t' n by (simp add: prop_area_remove_def)
      then show ?thesis using noprop t' n True by blast
    next
      case False
      have r1: "(case to_prop_obj a (bt_prop n) of
                  None \<Rightarrow> None
                | Some p \<Rightarrow>
                    (case get_info a p of
                       None \<Rightarrow> None
                     | Some info \<Rightarrow>
                         (case (if is_long info
                                then clear_long_value (upd_bt a node (\<lambda>n. n\<lparr>bt_prop := 0\<rparr>)) p info
                                else Some (upd_bt a node (\<lambda>n. n\<lparr>bt_prop := 0\<rparr>))) of
                            None \<Rightarrow> None
                          | Some a3 \<Rightarrow>
                              if prune
                              then map_option (\<lambda>(r, a5). (True, a5))
                                     (prune_trie k (put_obj a3 p (Info zero_info)) (Some 0))
                              else Some (True, put_obj a3 p (Info zero_info))))) = Some (r, a')"
        using assms remove_unfold [OF t' n False, of prune] by simp
      then have to: "to_prop_obj a (bt_prop n) = Some (bt_prop n)"
        by (cases "to_prop_obj a (bt_prop n)") (auto simp add: to_prop_obj_def split: if_splits)
      from r1 to obtain info where i: "get_info a (bt_prop n) = Some info"
        by (cases "get_info a (bt_prop n)") auto
      from r1 to i obtain a3 where
        a3: "(if is_long info
                  then clear_long_value (upd_bt a node (\<lambda>n. n\<lparr>bt_prop := 0\<rparr>)) (bt_prop n) info
                  else Some (upd_bt a node (\<lambda>n. n\<lparr>bt_prop := 0\<rparr>))) = Some a3"
        by (cases "(if is_long info
                  then clear_long_value (upd_bt a node (\<lambda>n. n\<lparr>bt_prop := 0\<rparr>)) (bt_prop n) info
                  else Some (upd_bt a node (\<lambda>n. n\<lparr>bt_prop := 0\<rparr>)))") auto
      have fin: "(if prune
                   then map_option (\<lambda>(r, a5). (True, a5))
                          (prune_trie k (put_obj a3 (bt_prop n) (Info zero_info)) (Some 0))
                   else Some (True, put_obj a3 (bt_prop n) (Info zero_info))) = Some (r, a')"
        using r1 to i a3 by simp
      have u: "unlinked a node (bt_prop n) (put_obj a3 (bt_prop n) (Info zero_info))"
        unfolding unlinked_def using n False to i a3 by (auto split: if_splits)
      show ?thesis
      proof (cases prune)
        case False
        then have "r \<and> a' = put_obj a3 (bt_prop n) (Info zero_info)" using fin by auto
        then show ?thesis using u t' False removed by blast
      next
        case True
        then obtain r' where "prune_trie k (put_obj a3 (bt_prop n) (Info zero_info)) (Some 0)
            = Some (r', a')" "r"
          using fin by auto
        then show ?thesis using u t' True pruned by blast
      qed
    qed
  qed
qed


lemma unlinkedE:
  assumes "unlinked a node p a4"
  obtains n info where
    "get_bt a node = Some n" "bt_prop n = p" "p \<noteq> 0" "get_info a p = Some info"
    "pa_bytes_used a4 = pa_bytes_used a" "pa_data_size a4 = pa_data_size a"
    "pa_serial a4 = pa_serial a" "pa_dirty_backup a4 = pa_dirty_backup a"
    "\<And>k. get_bt a4 k = (if k = node then Some (n\<lparr>bt_prop := 0\<rparr>) else get_bt a k)"
    "\<And>k. get_info a4 k = (if k = p then Some zero_info else get_info a k)"
    "\<And>k. (get_blob a4 k = None) = (get_blob a k = None)"
    "\<And>k. k \<noteq> p + pi_long_offset info \<Longrightarrow> get_blob a4 k = get_blob a k"
    "\<And>k. (pa_data a4 k = None) = (pa_data a k = None)"
proof -
  from assms obtain n info a3 where
    n: "get_bt a node = Some n" "bt_prop n = p" "p \<noteq> 0" and i: "get_info a p = Some info"
    and a3: "if is_long info
         then clear_long_value (upd_bt a node (\<lambda>n. n\<lparr>bt_prop := 0\<rparr>)) p info = Some a3
         else a3 = upd_bt a node (\<lambda>n. n\<lparr>bt_prop := 0\<rparr>)"
    and a4: "a4 = put_obj a3 p (Info zero_info)"
    unfolding unlinked_def by blast
  define a2 where "a2 = upd_bt a node (\<lambda>n. n\<lparr>bt_prop := 0\<rparr>)"
  have np: "node \<noteq> p" using n(1) i by (auto simp add: get_bt_Some get_info_Some)
  have dp: "pa_data a p \<noteq> None" using i by (simp add: get_info_Some)
  have g2: "get_bt a2 k = (if k = node then Some (n\<lparr>bt_prop := 0\<rparr>) else get_bt a k)" for k
    using n(1) by (simp add: a2_def get_upd_bt)
  have s3: "pa_bytes_used a3 = pa_bytes_used a \<and> pa_data_size a3 = pa_data_size a \<and>
            pa_serial a3 = pa_serial a \<and> pa_dirty_backup a3 = pa_dirty_backup a \<and>
            (\<forall>k. get_bt a3 k = get_bt a2 k) \<and> (\<forall>k. get_info a3 k = get_info a k) \<and>
            (\<forall>k. (get_blob a3 k = None) = (get_blob a k = None)) \<and>
            (\<forall>k. k \<noteq> p + pi_long_offset info \<longrightarrow> get_blob a3 k = get_blob a k) \<and>
            (\<forall>k. (pa_data a3 k = None) = (pa_data a k = None))"
  proof (cases "is_long info")
    case False
    then have "a3 = a2" using a3 by (simp add: a2_def)
    then show ?thesis by (simp add: a2_def get_upd_bt data_upd_bt_None)
  next
    case True
    then have c: "clear_long_value a2 p info = Some a3" using a3 by (simp add: a2_def)
    then obtain bytes where b: "get_blob a2 (p + pi_long_offset info) = Some bytes"
      and a3': "a3 = put_obj a2 (p + pi_long_offset info)
                  (LongValue (replicate (strlen bytes) NUL @ drop (strlen bytes) bytes))"
      by (auto simp add: clear_long_value_def get_blob_Some split: option.splits obj.splits)
    have b': "get_blob a (p + pi_long_offset info) = Some bytes"
      using b by (simp add: a2_def get_upd_bt)
    then have nb: "get_bt a2 (p + pi_long_offset info) = None"
      "get_info a (p + pi_long_offset info) = None" "pa_data a (p + pi_long_offset info) \<noteq> None"
      using g2 n(1) by (auto simp add: get_blob_Some get_bt_def get_info_def)
    show ?thesis
      using nb b' by (auto simp add: a3' get_put_obj a2_def get_upd_bt data_upd_bt_None)
  qed
  have gp: "get_bt a2 p = None" "get_blob a p = None"
  proof -
    have "get_bt a p = None" using i by (simp add: get_info_Some get_bt_def)
    then show "get_bt a2 p = None" using np by (simp add: g2)
    show "get_blob a p = None" using i by (simp add: get_info_Some get_blob_def)
  qed
  show thesis
  proof (rule that [of n info])
    show "get_bt a node = Some n" "bt_prop n = p" "p \<noteq> 0" "get_info a p = Some info"
      using n i by simp_all
    show "pa_bytes_used a4 = pa_bytes_used a" "pa_data_size a4 = pa_data_size a"
      "pa_serial a4 = pa_serial a" "pa_dirty_backup a4 = pa_dirty_backup a"
      using s3 by (simp_all add: a4)
    show "get_bt a4 k = (if k = node then Some (n\<lparr>bt_prop := 0\<rparr>) else get_bt a k)" for k
      using s3 gp(1) np by (simp add: a4 get_put_obj g2)
    show "get_info a4 k = (if k = p then Some zero_info else get_info a k)" for k
      using s3 by (simp add: a4 get_put_obj)
    show "(get_blob a4 k = None) = (get_blob a k = None)" for k
      using s3 gp(2) by (simp add: a4 get_put_obj)
    show "k \<noteq> p + pi_long_offset info \<Longrightarrow> get_blob a4 k = get_blob a k" for k
      using s3 gp(2) by (simp add: a4 get_put_obj)
    show "(pa_data a4 k = None) = (pa_data a k = None)" for k
      using s3 dp by (simp add: a4)
  qed
qed

lemma is_long_zero [simp]: "\<not> is_long zero_info"
  by (simp add: is_long_def zero_info_def)

lemma unlinked_wf:
  assumes "unlinked a node p a4" and "wf_area a"
  shows "wf_area a4"
proof -
  from assms(1) obtain n info where
    n: "get_bt a node = Some n"
    and bu: "pa_bytes_used a4 = pa_bytes_used a" "pa_data_size a4 = pa_data_size a"
    and g: "\<And>k. get_bt a4 k = (if k = node then Some (n\<lparr>bt_prop := 0\<rparr>) else get_bt a k)"
    and i: "\<And>k. get_info a4 k = (if k = p then Some zero_info else get_info a k)"
    and l: "\<And>k. (get_blob a4 k = None) = (get_blob a k = None)"
    and d: "\<And>k. (pa_data a4 k = None) = (pa_data a k = None)"
    by (rule unlinkedE) blast
  have lk: "link_ok a4 k x = link_ok a k x" for k x
    using n by (simp add: link_ok_def g)
  have ek: "entry_ok a x \<Longrightarrow> entry_ok a4 x" for x
    by (cases "x = p") (auto simp add: entry_ok_def i l split: option.splits)
  have pk: "prop_ok a k x \<Longrightarrow> prop_ok a4 k x" for k x
    using ek by (auto simp add: prop_ok_def)
  have ok: "node_ok a4 k n'" if h: "get_bt a4 k = Some n'" for k n'
  proof (cases "k = node")
    case True
    then have n': "n' = n\<lparr>bt_prop := 0\<rparr>" using h by (simp add: g)
    have "node_ok a node n" using wf_areaD(4) [OF assms(2) n] .
    then show ?thesis using True by (simp add: n' node_ok_def lk)
  next
    case False
    then have "node_ok a k n'" using h wf_areaD(4) [OF assms(2)] by (simp add: g)
    then show ?thesis using pk by (simp add: node_ok_def lk)
  qed
  have "get_bt a4 0 \<noteq> None" using wf_areaD(3) [OF assms(2)] by (simp add: g)
  moreover have "k < pa_bytes_used a4" if "pa_data a4 k \<noteq> None" for k
    using that wf_areaD(2) [OF assms(2), of k] bu d by simp
  ultimately show ?thesis
    unfolding wf_area_def using ok wf_areaD(1) [OF assms(2)] bu by auto
qed

lemma remove_wf:
  assumes "prop_area_remove k a name prune = Some (r, a')" and "wf_area a"
  shows "wf_area a'"
  using assms(1)
proof (cases rule: remove_cases)
  case nonode
  then show ?thesis using assms(2) by simp
next
  case (noprop node n)
  then show ?thesis using assms(2) by simp
next
  case (removed node p)
  then show ?thesis using unlinked_wf assms(2) by blast
next
  case (pruned node p a4 r')
  then have "wf_area a4" using unlinked_wf assms(2) by blast
  then show ?thesis using prune_trie_wf(1) [OF pruned(5)] by simp
qed

lemma remove_bytes:
  assumes "prop_area_remove k a name prune = Some (r, a')"
  shows "pa_bytes_used a' = pa_bytes_used a" and "pa_data_size a' = pa_data_size a"
proof -
  have "pa_bytes_used a' = pa_bytes_used a \<and> pa_data_size a' = pa_data_size a"
    using assms
  proof (cases rule: remove_cases)
    case nonode
    then show ?thesis by simp
  next
    case (noprop node n)
    then show ?thesis by simp
  next
    case (removed node p)
    then show ?thesis by (auto elim: unlinkedE)
  next
    case (pruned node p a4 r')
    have "pruned a4 a'" using prune_trie_steps [OF pruned(5)] prune_steps_pruned by blast
    then show ?thesis using prunedD(1,2) pruned(2) by (auto elim!: unlinkedE)
  qed
  then show "pa_bytes_used a' = pa_bytes_used a" and "pa_data_size a' = pa_data_size a"
    by simp_all
qed

lemma link_target:
  assumes "wf_area a" and "get_bt a c = Some n" and "l \<noteq> 0"
      and "l = bt_left n \<or> l = bt_right n \<or> l = bt_children n"
  shows "c < l" and "get_bt a l \<noteq> None" and "to_prop_obj a l = Some l" and "l < pa_bytes_used a"
proof -
  have "link_ok a c l" using wf_areaD(4) [OF assms(1,2)] assms(4) by (auto simp add: node_ok_def)
  then show c: "c < l" and g: "get_bt a l \<noteq> None" using assms(3) by (simp_all add: link_ok_def)
  then show b: "l < pa_bytes_used a" using wf_area_below(1) [OF assms(1)] by auto
  then show "to_prop_obj a l = Some l" using wf_areaD(1) [OF assms(1)]
    by (simp add: to_prop_obj_def)
qed

lemma find_prop_bt_total:
  assumes "wf_area a"
  shows "get_bt a cur \<noteq> None \<Longrightarrow> pa_bytes_used a - cur \<le> k \<Longrightarrow>
         find_prop_bt k a (Some cur) name namelen alloc \<noteq> None"
proof (induction k arbitrary: cur)
  case 0
  then obtain n where "get_bt a cur = Some n" by auto
  then have "cur < pa_bytes_used a" using wf_area_below(1) [OF assms] by blast
  then show ?case using 0 by simp
next
  case (Suc k)
  then obtain node where n: "get_bt a cur = Some node" by auto
  define ret where "ret = cmp_prop_name name namelen (bt_name node) (bt_namelen node)"
  show ?case
  proof (cases "ret \<noteq> 0 \<and> next_link node ret \<noteq> 0")
    case False
    then show ?thesis using n
      by (auto simp add: find_prop_bt_Suc Let_def ret_def [symmetric] split: option.splits)
  next
    case True
    define l where "l = next_link node ret"
    have l: "l \<noteq> 0" "l = bt_left node \<or> l = bt_right node \<or> l = bt_children node"
      using True by (auto simp add: l_def next_link_def)
    note t = link_target [OF assms n l]
    have "find_prop_bt k a (Some l) name namelen alloc \<noteq> None"
      using t Suc.prems(2) by (intro Suc.IH) auto
    then show ?thesis using True n t(3)
      by (simp add: find_prop_bt_Suc Let_def ret_def [symmetric] l_def [symmetric])
  qed
qed

lemma new_prop_bt_node:
  assumes "new_prop_bt a name namelen = Some (off, a1)"
  shows "get_bt (upd_bt a1 c f) off \<noteq> None" and "wf_area a \<Longrightarrow> off \<noteq> 0"
proof -
  have d: "get_bt a1 off \<noteq> None" using new_prop_bt_Some(5) [OF assms] by (simp add: get_bt_def)
  then show "get_bt (upd_bt a1 c f) off \<noteq> None" by (auto simp add: get_upd_bt)
  show "wf_area a \<Longrightarrow> off \<noteq> 0"
    using new_prop_bt_Some(1) [OF assms] wf_area_below(4) [of a] by simp
qed

lemma find_prop_bt_node:
  assumes "find_prop_bt k a cur name namelen alloc = Some (Some c, a')"
  shows "get_bt a' c \<noteq> None"
  using find_prop_bt_result [OF assms] new_prop_bt_node(1) by auto

lemma find_prop_bt_wf:
  assumes "find_prop_bt k a cur name namelen alloc = Some (p, a')" and "namelen \<le> length name"
      and "wf_area a"
  shows "wf_area a'" and "pa_data_size a' = pa_data_size a"
  using find_prop_bt_step [OF assms(1,2)] assms(3) alloc_step_wf alloc_step_grows(2) by auto

lemma children_root_node:
  assumes "children_root a cur node name namelen alloc = (Some root, a1)"
      and "get_bt a cur = Some node" and "namelen \<le> length name" and "wf_area a"
  shows "get_bt a1 root \<noteq> None" and "root \<noteq> 0" and "wf_area a1"
    and "pa_data_size a1 = pa_data_size a"
proof -
  show "wf_area a1" and "pa_data_size a1 = pa_data_size a"
    using children_root_step(1) [OF assms(1,2,3)] assms(4) alloc_step_wf alloc_step_grows(2)
    by auto
  have "get_bt a1 root \<noteq> None \<and> root \<noteq> 0"
  proof (cases "bt_children node = 0")
    case False
    note t = link_target [OF assms(4,2) False]
    have "root = bt_children node" "a1 = a" using assms(1) False t(3)
      by (auto simp add: children_root_def)
    then show ?thesis using t False by simp
  next
    case True
    then obtain off a0 where "new_prop_bt a name namelen = Some (off, a0)" "root = off"
      "a1 = upd_bt a0 cur (\<lambda>n. n\<lparr>bt_children := off\<rparr>)"
      using assms(1) by (auto simp add: children_root_def split: if_splits option.splits)
    then show ?thesis using new_prop_bt_node assms(4) by auto
  qed
  then show "get_bt a1 root \<noteq> None" and "root \<noteq> 0" by simp_all
qed

lemma traverse_loop_total:
  "wf_area a \<Longrightarrow> get_bt a cur \<noteq> None \<Longrightarrow> pa_data_size a \<le> k \<Longrightarrow>
   traverse_loop k a cur name alloc \<noteq> None"
proof (induction "length name" arbitrary: a cur name rule: less_induct)
  case less
  obtain node where n: "get_bt a cur = Some node" using less.prems(2) by auto
  obtain r a1 where cr: "children_root a cur node name (seg_size name) alloc = (r, a1)"
    by (cases "children_root a cur node name (seg_size name) alloc") auto
  show ?case
  proof (cases "seg_size name = 0 \<or> r = None")
    case True
    then show ?thesis using n cr by (auto simp add: traverse_loop_unfold)
  next
    case False
    then obtain root where r: "r = Some root" by auto
    note c = children_root_node [OF cr [unfolded r] n seg_size_le less.prems(1)]
    have b: "pa_bytes_used a1 \<le> k" using wf_areaD(1) [OF c(3)] c(4) less.prems(3) by simp
    have "find_prop_bt k a1 (Some root) name (seg_size name) alloc \<noteq> None"
      using c(1) b by (intro find_prop_bt_total [OF c(3)]) auto
    then obtain p a2 where
      f: "find_prop_bt k a1 (Some root) name (seg_size name) alloc = Some (p, a2)" by auto
    note w = find_prop_bt_wf [OF f seg_size_le c(3)]
    show ?thesis
    proof (cases p)
      case None
      then show ?thesis using False n cr r f by (simp add: traverse_loop_unfold)
    next
      case (Some c')
      have g: "get_bt a2 c' \<noteq> None" using find_prop_bt_node f Some by blast
      show ?thesis
      proof (cases "strchr name CHR ''.''")
        case None
        then show ?thesis using False n cr r f Some by (simp add: traverse_loop_unfold)
      next
        case (Some i)
        have "i < length name" using strchr_less [OF Some] .
        then have "traverse_loop k a2 c' (drop (i + 1) name) alloc \<noteq> None"
          using w g c(4) less.prems(3) by (intro less.hyps) auto
        then show ?thesis using False n cr r f \<open>p = Some c'\<close> Some
          by (simp add: traverse_loop_unfold)
      qed
    qed
  qed
qed

lemma traverse_loop_node:
  "traverse_loop k a cur name alloc = Some (Some c, a') \<Longrightarrow> get_bt a' c \<noteq> None"
proof (induction "length name" arbitrary: a cur name rule: less_induct)
  case less
  from less.prems show ?case
  proof (cases rule: traverse_loop_cases)
    case (last node root a1 c)
    then show ?thesis using find_prop_bt_node by blast
  next
    case (more node root a1 c a2 i)
    then show ?thesis using less.hyps [of "drop (i + 1) name"] by simp
  qed simp_all
qed

lemma find_property_total:
  assumes "wf_area a" and "pa_data_size a \<le> k"
  shows "find_property k a (Some 0) name namelen value valuelen alloc \<noteq> None"
proof -
  have "traverse_loop k a 0 name alloc \<noteq> None"
    using traverse_loop_total [OF assms(1) wf_areaD(3) [OF assms(1)] assms(2)] .
  then obtain p a1 where t: "traverse_loop k a 0 name alloc = Some (p, a1)" by auto
  show ?thesis
  proof (cases p)
    case None
    then show ?thesis using t by (simp add: find_property_def)
  next
    case (Some c)
    then obtain node where "get_bt a1 c = Some node" using traverse_loop_node t by blast
    then show ?thesis using t Some
      by (auto simp add: find_property_def split: prod.splits option.splits)
  qed
qed

lemma add_total:
  assumes "wf_area a" and "pa_data_size a \<le> k"
  shows "prop_area_add k a name namelen value valuelen \<noteq> None"
  using find_property_total [OF assms] by (simp add: prop_area_add_def)

lemma add_wf:
  assumes "prop_area_add k a name namelen value valuelen = Some (r, a')"
  shows "pa_bytes_used a \<le> pa_bytes_used a'" and "pa_data_size a' = pa_data_size a"
    and "4 dvd pa_bytes_used a \<Longrightarrow> 4 dvd pa_bytes_used a'" and "wf_area a \<Longrightarrow> wf_area a'"
proof -
  obtain p where f: "find_property k a (Some 0) name namelen value valuelen True = Some (p, a')"
    using assms by (auto simp add: prop_area_add_def)
  show "pa_bytes_used a \<le> pa_bytes_used a'" and "pa_data_size a' = pa_data_size a"
    and "4 dvd pa_bytes_used a \<Longrightarrow> 4 dvd pa_bytes_used a'" and "wf_area a \<Longrightarrow> wf_area a'"
    using find_property_bytes [OF f] find_property_wf [OF f] by simp_all
qed


lemma get_lnk_cases: "get_lnk x n = bt_left n \<or> get_lnk x n = bt_right n \<or> get_lnk x n = bt_children n"
  by (cases x) simp_all

lemma prune_link_total:
  assumes tot: "\<forall>a nd. wf_area a \<and> get_bt a nd \<noteq> None \<and> pa_bytes_used a - nd \<le> k \<longrightarrow>
                  prune_trie k a (Some nd) \<noteq> None"
      and wf: "wf_area a" and n: "get_bt a nd = Some n" and b: "pa_bytes_used a - nd \<le> Suc k"
  obtains leaf' a1 where
    "prune_link (prune_trie k) a nd (get_lnk x n) (clear_lnk x) leaf = Some (leaf', a1)"
    "wf_area a1" "pa_bytes_used a1 = pa_bytes_used a" "get_bt a1 nd \<noteq> None"
proof -
  have "\<exists>leaf' a1. prune_link (prune_trie k) a nd (get_lnk x n) (clear_lnk x) leaf = Some (leaf', a1)"
  proof (cases "get_lnk x n = 0")
    case True
    then show ?thesis by (simp add: prune_link_def)
  next
    case False
    note t = link_target [OF wf n False get_lnk_cases]
    have "prune_trie k a (Some (get_lnk x n)) \<noteq> None"
      using t b wf by (intro tot [rule_format]) auto
    then show ?thesis using t(3) False
      by (auto simp add: prune_link_def split: bool.splits)
  qed
  then obtain leaf' a1 where
    pl: "prune_link (prune_trie k) a nd (get_lnk x n) (clear_lnk x) leaf = Some (leaf', a1)"
    by blast
  have ih: "\<forall>a p r a'. prune_trie k a p = Some (r, a') \<longrightarrow>
                 prune_step\<^sup>*\<^sup>* a a' \<and> (r \<longrightarrow> (\<exists>c. p = Some c \<and> get_bt a' c = Some zero_bt))"
    using prune_trie_steps by blast
  have p: "pruned a a1" using prune_link_steps(1) [OF ih pl n] prune_steps_pruned by blast
  show thesis
  proof (rule that [OF pl])
    show "wf_area a1" using pruned_wf [OF p wf] .
    show "pa_bytes_used a1 = pa_bytes_used a" using prunedD(1) [OF p] .
    show "get_bt a1 nd \<noteq> None" using prunedD(9) [OF p n] by auto
  qed
qed

lemma prune_trie_total:
  "wf_area a \<Longrightarrow> get_bt a nd \<noteq> None \<Longrightarrow> pa_bytes_used a - nd \<le> k \<Longrightarrow>
   prune_trie k a (Some nd) \<noteq> None"
proof (induction k arbitrary: a nd)
  case 0
  then obtain n where "get_bt a nd = Some n" by auto
  then have "nd < pa_bytes_used a" using wf_area_below(1) [OF 0(1)] by blast
  then show ?case using 0 by simp
next
  case (Suc k)
  have tot: "\<forall>a nd. wf_area a \<and> get_bt a nd \<noteq> None \<and> pa_bytes_used a - nd \<le> k \<longrightarrow>
                  prune_trie k a (Some nd) \<noteq> None"
    using Suc.IH by blast
  obtain n0 where n0: "get_bt a nd = Some n0" using Suc.prems(2) by auto
  obtain leaf1 a1 where s1:
    "prune_link (prune_trie k) a nd (get_lnk L_children n0) (clear_lnk L_children) True
       = Some (leaf1, a1)"
    and w1: "wf_area a1" "pa_bytes_used a1 = pa_bytes_used a" "get_bt a1 nd \<noteq> None"
    using prune_link_total [OF tot Suc.prems(1) n0 Suc.prems(3)] by blast
  obtain n1 where n1: "get_bt a1 nd = Some n1" using w1(3) by auto
  have b1: "pa_bytes_used a1 - nd \<le> Suc k" using w1(2) Suc.prems(3) by simp
  obtain leaf2 a2 where s2:
    "prune_link (prune_trie k) a1 nd (get_lnk L_left n1) (clear_lnk L_left) leaf1
       = Some (leaf2, a2)"
    and w2: "wf_area a2" "pa_bytes_used a2 = pa_bytes_used a1" "get_bt a2 nd \<noteq> None"
    using prune_link_total [OF tot w1(1) n1 b1] by blast
  obtain n2 where n2: "get_bt a2 nd = Some n2" using w2(3) by auto
  have b2: "pa_bytes_used a2 - nd \<le> Suc k" using w2(2) b1 by simp
  obtain leaf3 a3 where s3:
    "prune_link (prune_trie k) a2 nd (get_lnk L_right n2) (clear_lnk L_right) leaf2
       = Some (leaf3, a3)"
    and w3: "wf_area a3" "pa_bytes_used a3 = pa_bytes_used a2" "get_bt a3 nd \<noteq> None"
    using prune_link_total [OF tot w2(1) n2 b2] by blast
  obtain n3 where n3: "get_bt a3 nd = Some n3" using w3(3) by auto
  show ?case
    using n0 s1 n1 s2 n2 s3 n3 by (auto simp add: prune_trie_Suc)
qed

lemma remove_total:
  assumes "wf_area a" and "pa_data_size a \<le> k"
  shows "prop_area_remove k a name prune \<noteq> None"
proof -
  have "traverse_loop k a 0 name False \<noteq> None"
    using traverse_loop_total [OF assms(1) wf_areaD(3) [OF assms(1)] assms(2)] .
  then obtain r a1 where t: "traverse_loop k a 0 name False = Some (r, a1)" by auto
  have a1: "a1 = a" using traverse_loop_steps(2) [OF t] by simp
  show ?thesis
  proof (cases r)
    case None
    then show ?thesis using t by (simp add: prop_area_remove_def)
  next
    case (Some c)
    then obtain n where n: "get_bt a c = Some n" using traverse_loop_node t a1 by blast
    have t': "traverse_loop k a 0 name False = Some (Some c, a)" using t Some a1 by simp
    show ?thesis
    proof (cases "bt_prop n = 0")
      case True
      then show ?thesis using t' n by (simp add: prop_area_remove_def)
    next
      case False
      define p where "p = bt_prop n"
      have "prop_ok a c p" using wf_areaD(4) [OF assms(1) n] by (simp add: node_ok_def p_def)
      then have e: "entry_ok a p" using False by (simp add: prop_ok_def p_def)
      then obtain info where i: "get_info a p = Some info"
        and l: "is_long info \<Longrightarrow> get_blob a (p + pi_long_offset info) \<noteq> None"
        by (auto simp add: entry_ok_def split: option.splits)
      have "p < pa_bytes_used a" using wf_area_below(2) [OF assms(1) i] .
      then have to: "to_prop_obj a p = Some p" using wf_areaD(1) [OF assms(1)]
        by (simp add: to_prop_obj_def)
      define a2 where "a2 = upd_bt a c (\<lambda>n. n\<lparr>bt_prop := 0\<rparr>)"
      obtain a3 where a3: "(if is_long info then clear_long_value a2 p info else Some a2) = Some a3"
      proof (cases "is_long info")
        case False
        then show ?thesis using that by simp
      next
        case True
        then obtain bytes where "get_blob a2 (p + pi_long_offset info) = Some bytes"
          using l by (auto simp add: a2_def get_upd_bt)
        then show ?thesis using that True
          by (auto simp add: clear_long_value_def get_blob_Some)
      qed
      define a4 where "a4 = put_obj a3 p (Info zero_info)"
      have u: "unlinked a c p a4"
        unfolding unlinked_def using n False to i a3
        by (auto simp add: p_def a2_def a4_def split: if_splits)
      have w4: "wf_area a4" using unlinked_wf [OF u assms(1)] .
      have "pa_bytes_used a4 = pa_bytes_used a" using u by (rule unlinkedE)
      then have "pa_bytes_used a4 - 0 \<le> k" using wf_areaD(1) [OF assms(1)] assms(2) by simp
      then have "prune_trie k a4 (Some 0) \<noteq> None"
        using prune_trie_total [OF w4 wf_areaD(3) [OF w4]] by simp
      then obtain r' a' where "prune_trie k a4 (Some 0) = Some (r', a')" by auto
      then show ?thesis using False to i a3
        unfolding remove_unfold [OF t' n False] p_def [symmetric] a2_def [symmetric]
        by (cases "is_long info") (auto simp add: a4_def [symmetric])
    qed
  qed
qed

lemma apply_op_facts:
  assumes "apply_op k x a = Some (r, a')"
  shows "pa_bytes_used a \<le> pa_bytes_used a'" and "pa_data_size a' = pa_data_size a"
    and "wf_area a \<Longrightarrow> wf_area a'"
proof -
  have "pa_bytes_used a \<le> pa_bytes_used a' \<and> pa_data_size a' = pa_data_size a \<and>
        (wf_area a \<longrightarrow> wf_area a')"
  proof (cases x)
    case (Add name namelen v valuelen)
    then show ?thesis using assms add_wf [of k a name namelen v valuelen r a'] by simp
  next
    case (Remove name prune)
    then show ?thesis using assms remove_bytes [of k a name prune r a']
        remove_wf [of k a name prune r a'] by simp
  qed
  then show "pa_bytes_used a \<le> pa_bytes_used a'" and "pa_data_size a' = pa_data_size a"
    and "wf_area a \<Longrightarrow> wf_area a'" by simp_all
qed

lemma apply_op_total:
  assumes "wf_area a" and "pa_data_size a \<le> k"
  shows "apply_op k x a \<noteq> None"
  using add_total [OF assms] remove_total [OF assms] by (cases x) simp_all

lemma apply_ops_bytes:
  "apply_ops k ops a = Some a' \<Longrightarrow> pa_bytes_used a \<le> pa_bytes_used a'"
proof (induction ops arbitrary: a)
  case Nil
  then show ?case by simp
next
  case (Cons x xs)
  then obtain r a1 where s: "apply_op k x a = Some (r, a1)" and t: "apply_ops k xs a1 = Some a'"
    by (auto split: option.splits)
  show ?case using apply_op_facts(1) [OF s] Cons.IH [OF t] by simp
qed

lemma apply_ops_total:
  "wf_area a \<Longrightarrow> pa_data_size a \<le> k \<Longrightarrow> apply_ops k ops a \<noteq> None"
proof (induction ops arbitrary: a)
  case Nil
  then show ?case by simp
next
  case (Cons x xs)
  obtain r a1 where s: "apply_op k x a = Some (r, a1)"
    using apply_op_total [OF Cons.prems, of x] by (cases "apply_op k x a") auto
  have "apply_ops k xs a1 \<noteq> None"
    using apply_op_facts(2,3) [OF s] Cons.prems by (intro Cons.IH) auto
  then show ?case using s by simp
qed

lemma wf_area_new:
  assumes "s + sizeof_prop_bt \<le> PA_SIZE"
  shows "wf_area (new_prop_area s)"
proof -
  have g: "get_bt (new_prop_area s) off = (if off = 0 then Some zero_bt else None)" for off
    by (simp add: get_bt_def new_prop_area_def)
  have "node_ok (new_prop_area s) 0 zero_bt"
    by (simp add: node_ok_def link_ok_def prop_ok_def zero_bt_def)
  then show ?thesis
    unfolding wf_area_def using assms
    by (auto simp add: g split: if_splits) (auto simp add: new_prop_area_def sizeof_prop_bt_def split: if_splits)
qed

lemma example_area_wf: "wf_area (new_prop_area 128)" "pa_data_size (new_prop_area 128) = 130944"
  "pa_bytes_used (new_prop_area 128) = 20"
  by (simp_all add: wf_area_new sizeof_prop_bt_def PA_SIZE_def) (simp_all add: new_prop_area_def PA_SIZE_def sizeof_prop_bt_def)

lemma apply_ops_aligned:
  "apply_ops k ops a = Some a' \<Longrightarrow> 4 dvd pa_bytes_used a \<Longrightarrow> 4 dvd pa_bytes_used a'"
proof (induction ops arbitrary: a)
  case Nil
  then show ?case by simp
next
  case (Cons x xs)
  then obtain r a1 where s: "apply_op k x a = Some (r, a1)" and t: "apply_ops k xs a1 = Some a'"
    by (auto split: option.splits)
  have "4 dvd pa_bytes_used a1"
  proof (cases x)
    case (Add name namelen v valuelen)
    then show ?thesis using s add_wf(3) [of k a name namelen v valuelen r a1] Cons.prems(2)
      by simp
  next
    case (Remove name prune)
    then show ?thesis using s remove_bytes(1) [of k a name prune r a1] Cons.prems(2) by simp
  qed
  then show ?case using Cons.IH [OF t] by simp
qed

lemma segments_not_Nil [simp]: "segments s \<noteq> []"
  by (induction s) (auto split: list.splits)

lemma segments_dot: "segments (xs @ CHR ''.'' # ys) = segments xs @ segments ys"
proof (induction xs)
  case Nil
  then show ?case by simp
next
  case (Cons c xs)
  obtain s ss where "segments xs = s # ss" by (cases "segments xs") auto
  then show ?case using Cons by simp
qed

lemma segments_no_dot: "strchr s CHR ''.'' = None \<Longrightarrow> segments s = [s]"
  by (induction s) (auto split: if_splits)

lemma strchr_split:
  "strchr s c = Some i \<Longrightarrow> s = take i s @ c # drop (Suc i) s \<and> strchr (take i s) c = None"
proof (induction s arbitrary: i)
  case Nil
  then show ?case by simp
next
  case (Cons x xs)
  show ?case
  proof (cases "x = c")
    case True
    then show ?thesis using Cons.prems by simp
  next
    case False
    then obtain j where j: "strchr xs c = Some j" "i = Suc j" using Cons.prems by auto
    then show ?thesis using Cons.IH [OF j(1)] False by simp
  qed
qed

lemma segments_strchr:
  assumes "strchr s CHR ''.'' = Some i"
  shows "segments s = take i s # segments (drop (Suc i) s)"
proof -
  note sp = strchr_split [OF assms]
  have "segments s = segments (take i s @ CHR ''.'' # drop (Suc i) s)" using sp by simp
  also have "\<dots> = segments (take i s) @ segments (drop (Suc i) s)" by (rule segments_dot)
  finally show ?thesis using segments_no_dot sp by simp
qed

lemma has_empty_segment_segments:
  assumes "has_empty_segment name"
  shows "[] \<in> set (segments name)"
proof -
  have ne: "name \<noteq> []" using assms by (simp add: has_empty_segment_def)
  consider (lead) "hd name = CHR ''.''" | (trail) "last name = CHR ''.''"
    | (double) xs ys where "name = xs @ ''..'' @ ys"
    using assms by (auto simp add: has_empty_segment_def)
  then show ?thesis
  proof cases
    case lead
    then obtain cs where "name = CHR ''.'' # cs" using ne by (cases name) auto
    then show ?thesis by simp
  next
    case trail
    then have "name = butlast name @ CHR ''.'' # []" using ne append_butlast_last_id by metis
    then have "segments name = segments (butlast name) @ segments []"
      using segments_dot by metis
    then show ?thesis by simp
  next
    case (double xs ys)
    then have "segments name = segments xs @ segments (CHR ''.'' # ys)"
      using segments_dot [of xs "CHR ''.'' # ys"] by simp
    then show ?thesis by simp
  qed
qed

lemma traverse_loop_empty_segment:
  "[] \<in> set (segments name) \<Longrightarrow> traverse_loop k a cur name alloc \<noteq> Some (Some c, a')"
proof (induction "length name" arbitrary: a cur name rule: less_induct)
  case less
  show ?case
  proof
    assume "traverse_loop k a cur name alloc = Some (Some c, a')"
    then show False
    proof (cases rule: traverse_loop_cases)
      case (last node root a1 c)
      then have "segments name = [name]" "name \<noteq> []"
        using segments_no_dot by (auto simp add: seg_size_def)
      then show ?thesis using less.prems by simp
    next
      case (more node root a1 c' a2 i)
      have "take i name \<noteq> []" using more(1,5,6) by (auto simp add: seg_size_def)
      then have "[] \<in> set (segments (drop (i + 1) name))"
        using less.prems segments_strchr [OF more(5)] by auto
      then show ?thesis using less.hyps [of "drop (i + 1) name"] more(6,7) by simp
    qed simp_all
  qed
qed

lemma alloc_steps_entries:
  "alloc_step\<^sup>*\<^sup>* a a' \<Longrightarrow> wf_area a \<Longrightarrow>
     wf_area a' \<and> (\<forall>off. get_info a' off = get_info a off) \<and>
     (\<forall>off n'. get_bt a' off = Some n' \<longrightarrow>
        bt_prop n' = 0 \<or> (\<exists>n. get_bt a off = Some n \<and> bt_prop n' = bt_prop n))"
proof (induction rule: rtranclp_induct)
  case base
  then show ?case by simp
next
  case (step b c)
  then have wb: "wf_area b" and ib: "\<And>off. get_info b off = get_info a off"
    and nb: "\<And>off n'. get_bt b off = Some n' \<Longrightarrow>
               bt_prop n' = 0 \<or> (\<exists>n. get_bt a off = Some n \<and> bt_prop n' = bt_prop n)"
    by auto
  from step.hyps(2) wb obtain cc node off newnode f where
    n: "get_bt b cc = Some node" and nn: "bt_prop newnode = 0"
    and f: "bt_left node = 0 \<and> f = (\<lambda>n. n\<lparr>bt_left := off\<rparr>) \<or>
     bt_right node = 0 \<and> f = (\<lambda>n. n\<lparr>bt_right := off\<rparr>) \<or>
     bt_children node = 0 \<and> f = (\<lambda>n. n\<lparr>bt_children := off\<rparr>)"
    and g: "\<And>k. get_bt c k = (if k = cc then Some (f node) else if k = off then Some newnode else get_bt b k)"
    and i: "\<And>k. get_info c k = get_info b k"
    by (rule alloc_stepE) blast
  have fp: "bt_prop (f node) = bt_prop node" using f by auto
  have "bt_prop n' = 0 \<or> (\<exists>n. get_bt a k = Some n \<and> bt_prop n' = bt_prop n)"
    if h: "get_bt c k = Some n'" for k n'
  proof (cases "k = cc")
    case True
    then have "n' = f node" using h g by simp
    then show ?thesis using nb [OF n] fp True by simp
  next
    case False
    show ?thesis
    proof (cases "k = off")
      case True
      then show ?thesis using h g False nn by simp
    next
      case False
      then show ?thesis using h g \<open>k \<noteq> cc\<close> nb [of k n'] by simp
    qed
  qed
  then show ?case using alloc_step_wf [OF step.hyps(2) wb] i ib by simp
qed

section \<open>Finding a name again\<close>

lemma node_kept_refl [simp]: "node_kept n n"
  by (simp add: node_kept_def)

lemma node_kept_trans: "node_kept n m \<Longrightarrow> node_kept m l \<Longrightarrow> node_kept n l"
  unfolding node_kept_def by (elim conjE, intro conjI impI) simp_all

lemma ext_refl [simp]: "ext a a"
  by (simp add: ext_def)

lemma extD: "ext a b \<Longrightarrow> get_bt a off = Some n \<Longrightarrow> \<exists>n'. get_bt b off = Some n' \<and> node_kept n n'"
  by (simp add: ext_def)

lemma ext_trans:
  assumes "ext a b" and "ext b c"
  shows "ext a c"
  unfolding ext_def
proof (intro allI impI)
  fix off n
  assume "get_bt a off = Some n"
  then obtain m where m: "get_bt b off = Some m" "node_kept n m" using extD [OF assms(1)] by blast
  then obtain l where "get_bt c off = Some l" "node_kept m l" using extD [OF assms(2)] by blast
  then show "\<exists>n'. get_bt c off = Some n' \<and> node_kept n n'"
    using node_kept_trans [OF m(2)] by blast
qed

lemma alloc_step_ext:
  assumes "alloc_step a b" and "wf_area a"
  shows "ext a b"
proof -
  from assms obtain c node off newnode f where
    n: "get_bt a c = Some node" and off: "off = pa_bytes_used a"
    and f: "bt_left node = 0 \<and> f = (\<lambda>n. n\<lparr>bt_left := off\<rparr>) \<or>
     bt_right node = 0 \<and> f = (\<lambda>n. n\<lparr>bt_right := off\<rparr>) \<or>
     bt_children node = 0 \<and> f = (\<lambda>n. n\<lparr>bt_children := off\<rparr>)"
    and g: "\<And>k. get_bt b k = (if k = c then Some (f node) else if k = off then Some newnode else get_bt a k)"
    by (rule alloc_stepE) blast
  have k: "node_kept node (f node)" using f by (auto simp add: node_kept_def)
  show ?thesis
    unfolding ext_def
  proof (intro allI impI)
    fix x m
    assume h: "get_bt a x = Some m"
    then have "x \<noteq> off" using wf_area_below(1) [OF assms(2) h] off by simp
    then show "\<exists>n'. get_bt b x = Some n' \<and> node_kept m n'"
      using h n k by (cases "x = c") (simp_all add: g)
  qed
qed

lemma alloc_steps_ext: "alloc_step\<^sup>*\<^sup>* a b \<Longrightarrow> wf_area a \<Longrightarrow> ext a b"
proof (induction rule: rtranclp_induct)
  case base
  then show ?case by simp
next
  case (step b c)
  then show ?case using alloc_step_ext [OF step.hyps(2)] alloc_steps_wf [OF step.hyps(1)] ext_trans
    by blast
qed

lemma find_prop_bt_ext:
  assumes "find_prop_bt k a cur name namelen alloc = Some (p, a')" and "namelen \<le> length name"
      and "wf_area a"
  shows "ext a a'"
  using find_prop_bt_step [OF assms(1,2)] alloc_step_ext assms(3) by auto

lemma traverse_loop_ext:
  assumes "traverse_loop k a cur name alloc = Some (p, a')" and "wf_area a"
  shows "ext a a'" and "wf_area a'" and "pa_data_size a' = pa_data_size a"
    and "pa_bytes_used a \<le> pa_bytes_used a'"
  using traverse_loop_steps(1) [OF assms(1)] alloc_steps_ext alloc_steps_wf assms(2)
    alloc_steps_grows by blast+

lemma strncmp_take: "strncmp s (take n s) n = 0"
proof (induction n arbitrary: s)
  case 0
  then show ?case by simp
next
  case (Suc n)
  then show ?case by (cases s) simp_all
qed

lemma new_prop_bt_get:
  assumes "new_prop_bt a name n = Some (off, a1)"
  shows "get_bt a1 k = (if k = off then Some (zero_bt\<lparr>bt_namelen := n, bt_name := take n name\<rparr>)
                         else get_bt a k)"
  using new_prop_bt_Some(5) [OF assms] by (simp add: get_bt_def)

lemma next_link_kept:
  assumes "node_kept n n'" and "next_link n ret \<noteq> 0"
  shows "next_link n' ret = next_link n ret"
  using assms by (auto simp add: node_kept_def next_link_def split: if_splits)

lemma next_link_set_next [simp]: "next_link (set_next ret off n) ret = off"
  by (simp add: next_link_def set_next_def)

lemma set_next_name [simp]:
  "bt_name (set_next ret off n) = bt_name n" "bt_namelen (set_next ret off n) = bt_namelen n"
  by (simp_all add: set_next_def)

lemma find_prop_bt_replay:
  "find_prop_bt k a (Some cur) name n alloc = Some (Some c, a') \<Longrightarrow> wf_area a \<Longrightarrow>
   n \<le> length name \<Longrightarrow> ext a' b \<Longrightarrow> wf_area b \<Longrightarrow>
   find_prop_bt k' b (Some cur) name n alloc2 = Some r \<Longrightarrow> r = (Some c, b)"
proof (induction k arbitrary: cur k')
  case 0
  then show ?case by simp
next
  case (Suc k)
  obtain j where k': "k' = Suc j" using Suc.prems(6) by (cases k') auto
  obtain node where n: "get_bt a cur = Some node"
    using Suc.prems(1) by (auto simp add: find_prop_bt_Suc split: option.splits)
  define ret where "ret = cmp_prop_name name n (bt_name node) (bt_namelen node)"
  have eq1: "find_prop_bt (Suc k) a (Some cur) name n alloc =
             (if ret = 0 then Some (Some cur, a)
              else if next_link node ret \<noteq> 0
              then find_prop_bt k a (to_prop_obj a (next_link node ret)) name n alloc
              else if \<not> alloc then Some (None, a)
              else (case new_prop_bt a name n of
                      None \<Rightarrow> Some (None, a)
                    | Some (new_offset, a') \<Rightarrow>
                        Some (Some new_offset, upd_bt a' cur (set_next ret new_offset))))"
    by (simp only: find_prop_bt_Suc n option.case Let_def ret_def)
  note first = Suc.prems(1) [unfolded eq1]
  have eab: "ext a b"
    using find_prop_bt_ext [OF Suc.prems(1,3,2)] Suc.prems(4) ext_trans by blast
  obtain nb where nb: "get_bt b cur = Some nb" "node_kept node nb"
    using extD [OF eab n] by blast
  have retb: "cmp_prop_name name n (bt_name nb) (bt_namelen nb) = ret"
    using nb(2) by (simp add: ret_def node_kept_def)
  have eq2: "find_prop_bt (Suc j) b (Some cur) name n alloc2 =
             (if ret = 0 then Some (Some cur, b)
              else if next_link nb ret \<noteq> 0
              then find_prop_bt j b (to_prop_obj b (next_link nb ret)) name n alloc2
              else if \<not> alloc2 then Some (None, b)
              else (case new_prop_bt b name n of
                      None \<Rightarrow> Some (None, b)
                    | Some (new_offset, a') \<Rightarrow>
                        Some (Some new_offset, upd_bt a' cur (set_next ret new_offset))))"
    by (simp only: find_prop_bt_Suc nb(1) option.case Let_def retb)
  note second = Suc.prems(6) [unfolded k' eq2]
  show ?case
  proof (cases "ret = 0")
    case True
    then show ?thesis using first second by simp
  next
    case False
    show ?thesis
    proof (cases "next_link node ret = 0")
      case nz: False
      define l where "l = next_link node ret"
      have l: "l \<noteq> 0" "l = bt_left node \<or> l = bt_right node \<or> l = bt_children node"
        using nz by (auto simp add: l_def next_link_def)
      note t = link_target [OF Suc.prems(2) n l]
      have rec: "find_prop_bt k a (Some l) name n alloc = Some (Some c, a')"
        using first False nz t(3) by (simp add: l_def [symmetric])
      have lb: "next_link nb ret = l" using next_link_kept [OF nb(2) nz] by (simp add: l_def)
      then have l': "l = bt_left nb \<or> l = bt_right nb \<or> l = bt_children nb"
        by (auto simp add: next_link_def split: if_splits)
      note tb = link_target [OF Suc.prems(5) nb(1) l(1) l']
      have "find_prop_bt j b (Some l) name n alloc2 = Some r"
        using second False lb l(1) tb(3) by simp
      then show ?thesis using Suc.IH [OF rec Suc.prems(2,3,4,5)] by blast
    next
      case True
      then obtain off a1 where np: "new_prop_bt a name n = Some (off, a1)"
        and c: "c = off" and a': "a' = upd_bt a1 cur (set_next ret off)"
        using first False by (auto split: if_splits option.splits)
      have off: "off \<noteq> 0" and oc: "off \<noteq> cur"
        using new_prop_bt_Some(1) [OF np] wf_area_below(1,4) [OF Suc.prems(2)] n by auto
      have g1: "get_bt a' cur = Some (set_next ret off node)"
        using n oc by (simp add: a' get_upd_bt new_prop_bt_get [OF np])
      have g2: "get_bt a' off = Some (zero_bt\<lparr>bt_namelen := n, bt_name := take n name\<rparr>)"
        using oc by (simp add: a' get_upd_bt new_prop_bt_get [OF np])
      obtain nb1 where nb1: "get_bt b cur = Some nb1" "node_kept (set_next ret off node) nb1"
        using extD [OF Suc.prems(4) g1] by blast
      have lb: "next_link nb ret = off"
        using next_link_kept [OF nb1(2), of ret] off nb1(1) nb(1) by simp
      then have l': "off = bt_left nb \<or> off = bt_right nb \<or> off = bt_children nb"
        by (auto simp add: next_link_def split: if_splits)
      note tb = link_target [OF Suc.prems(5) nb(1) off l']
      have s2: "find_prop_bt j b (Some off) name n alloc2 = Some r"
        using second False lb off tb(3) by simp
      then obtain j' where j: "j = Suc j'" by (cases j) auto
      obtain nb2 where nb2: "get_bt b off = Some nb2"
        "node_kept (zero_bt\<lparr>bt_namelen := n, bt_name := take n name\<rparr>) nb2"
        using extD [OF Suc.prems(4) g2] by blast
      have "cmp_prop_name name n (bt_name nb2) (bt_namelen nb2) = 0"
        using nb2(2) by (simp add: node_kept_def cmp_prop_name_def strncmp_take)
      then show ?thesis using s2 nb2(1) c by (simp add: j find_prop_bt_Suc)
    qed
  qed
qed

lemma children_root_link:
  assumes "children_root a cur node name n alloc = (Some root, a1)"
      and "get_bt a cur = Some node" and "wf_area a"
  shows "\<exists>node1. get_bt a1 cur = Some node1 \<and> bt_children node1 = root"
proof (cases "bt_children node = 0")
  case False
  then have "root = bt_children node" "a1 = a"
    using assms(1) link_target(3) [OF assms(3,2) False]
    by (auto simp add: children_root_def)
  then show ?thesis using assms(2) by simp
next
  case True
  then obtain off a0 where np: "new_prop_bt a name n = Some (off, a0)" and r: "root = off"
    and a1: "a1 = upd_bt a0 cur (\<lambda>n. n\<lparr>bt_children := off\<rparr>)"
    using assms(1) by (auto simp add: children_root_def split: if_splits option.splits)
  have "off \<noteq> cur"
    using new_prop_bt_Some(1) [OF np] wf_area_below(1) [OF assms(3,2)] by auto
  then show ?thesis using assms(2) by (simp add: a1 r get_upd_bt new_prop_bt_get [OF np])
qed

lemma children_root_ext:
  assumes "children_root a cur node name n alloc = (r, a1)"
      and "get_bt a cur = Some node" and "n \<le> length name" and "wf_area a"
  shows "ext a a1"
  using children_root_step(1) [OF assms(1,2,3)] alloc_step_ext assms(4) by auto

lemma traverse_replay:
  "traverse_loop k a cur name alloc = Some (Some c, a') \<Longrightarrow> wf_area a \<Longrightarrow> ext a' b \<Longrightarrow>
   wf_area b \<Longrightarrow> traverse_loop k' b cur name alloc2 = Some r \<Longrightarrow> r = (Some c, b)"
proof (induction "length name" arbitrary: a cur name r rule: less_induct)
  case less
  have common: "r = (Some c, b)"
    if sz: "seg_size name \<noteq> 0" and n: "get_bt a cur = Some node"
      and cr: "children_root a cur node name (seg_size name) alloc = (Some root, a1)"
      and fp: "find_prop_bt k a1 (Some root) name (seg_size name) alloc = Some (Some c', a2)"
      and e2: "ext a2 b"
      and fin: "\<And>r1. (case strchr name CHR ''.'' of
                         None \<Rightarrow> Some (Some c', b)
                       | Some i \<Rightarrow> traverse_loop k' b c' (drop (i + 1) name) alloc2) = Some r1
                  \<Longrightarrow> r1 = (Some c, b)"
    for node root a1 c' a2
  proof -
    note cn = children_root_node [OF cr n seg_size_le less.prems(2)]
    have e1: "ext a1 b"
      using find_prop_bt_ext [OF fp seg_size_le cn(3)] e2 ext_trans by blast
    obtain node1 where n1: "get_bt a1 cur = Some node1" "bt_children node1 = root"
      using children_root_link [OF cr n less.prems(2)] by blast
    obtain nb where nb: "get_bt b cur = Some nb" "node_kept node1 nb"
      using extD [OF e1 n1(1)] by blast
    have cb: "bt_children nb = root" using nb(2) n1(2) cn(2) by (simp add: node_kept_def)
    have tb: "to_prop_obj b root = Some root"
      using link_target(3) [OF less.prems(4) nb(1) cn(2)] cb by simp
    have crb: "children_root b cur nb name (seg_size name) alloc2 = (Some root, b)"
      using cb cn(2) tb by (simp add: children_root_def)
    have second: "(case find_prop_bt k' b (Some root) name (seg_size name) alloc2 of
                       None \<Rightarrow> None
                     | Some (None, a2) \<Rightarrow> Some (None, a2)
                     | Some (Some c, a2) \<Rightarrow>
                         (case strchr name CHR ''.'' of
                            None \<Rightarrow> Some (Some c, a2)
                          | Some i \<Rightarrow> traverse_loop k' a2 c (drop (i + 1) name) alloc2)) = Some r"
      using less.prems(5) sz nb(1) crb by (subst (asm) traverse_loop_unfold) simp
    then obtain r1 where r1: "find_prop_bt k' b (Some root) name (seg_size name) alloc2 = Some r1"
      by (cases "find_prop_bt k' b (Some root) name (seg_size name) alloc2") auto
    have "r1 = (Some c', b)"
      using find_prop_bt_replay [OF fp cn(3) seg_size_le e2 less.prems(4) r1] .
    then show ?thesis using second r1 fin by simp
  qed
  from less.prems(1) show ?case
  proof (cases rule: traverse_loop_cases)
    case (last node root a1 c')
    show ?thesis
    proof (rule common [OF last(1,2,3,4) less.prems(3)])
      fix r1
      assume "(case strchr name CHR ''.'' of None \<Rightarrow> Some (Some c', b)
               | Some i \<Rightarrow> traverse_loop k' b c' (drop (i + 1) name) alloc2) = Some r1"
      then show "r1 = (Some c, b)" using last(5,6) by simp
    qed
  next
    case (more node root a1 c' a2 i)
    note cn = children_root_node [OF more(3,2) seg_size_le less.prems(2)]
    note w2 = find_prop_bt_wf [OF more(4) seg_size_le cn(3)]
    have e2: "ext a2 b" using traverse_loop_ext(1) [OF more(7) w2(1)] less.prems(3) ext_trans by blast
    show ?thesis
    proof (rule common [OF more(1,2,3,4) e2])
      fix r1
      assume "(case strchr name CHR ''.'' of None \<Rightarrow> Some (Some c', b)
               | Some i \<Rightarrow> traverse_loop k' b c' (drop (i + 1) name) alloc2) = Some r1"
      then have "traverse_loop k' b c' (drop (i + 1) name) alloc2 = Some r1"
        using more(5) by simp
      then show "r1 = (Some c, b)"
        using less.hyps [OF _ more(7) w2(1) less.prems(3,4)] more(6) by simp
    qed
  qed simp_all
qed


lemma children_root_new:
  assumes "children_root a cur node name n alloc = (Some root, a1)"
      and "get_bt a cur = Some node" and "bt_children node = 0" and "wf_area a"
  shows "root = pa_bytes_used a"
    and "get_bt a1 root = Some (zero_bt\<lparr>bt_namelen := n, bt_name := take n name\<rparr>)"
proof -
  obtain off a0 where np: "new_prop_bt a name n = Some (off, a0)" and r: "root = off"
    and a1: "a1 = upd_bt a0 cur (\<lambda>n. n\<lparr>bt_children := off\<rparr>)"
    using assms(1,3) by (auto simp add: children_root_def split: if_splits option.splits)
  have oc: "off \<noteq> cur"
    using new_prop_bt_Some(1) [OF np] wf_area_below(1) [OF assms(4,2)] by auto
  show "root = pa_bytes_used a" using new_prop_bt_Some(1) [OF np] r by simp
  show "get_bt a1 root = Some (zero_bt\<lparr>bt_namelen := n, bt_name := take n name\<rparr>)"
    using oc by (simp add: a1 r get_upd_bt new_prop_bt_get [OF np])
qed

lemma find_prop_bt_exact:
  assumes "find_prop_bt k a (Some root) name n alloc = Some r"
      and "get_bt a root = Some (zero_bt\<lparr>bt_namelen := n, bt_name := take n name\<rparr>)"
  shows "r = (Some root, a)"
proof -
  obtain j where "k = Suc j" using assms(1) by (cases k) auto
  then show ?thesis
    using assms by (simp add: find_prop_bt_Suc cmp_prop_name_def strncmp_take)
qed

lemma traverse_from_leaf:
  "traverse_loop k a cur name alloc = Some (Some c, a') \<Longrightarrow> wf_area a \<Longrightarrow>
   get_bt a cur = Some n \<Longrightarrow> bt_children n = 0 \<Longrightarrow>
   pa_bytes_used a \<le> c \<and> (\<exists>n'. get_bt a' c = Some n' \<and> bt_prop n' = 0)"
proof (induction "length name" arbitrary: a cur name n rule: less_induct)
  case less
  have common: "root = pa_bytes_used a \<and> c' = root \<and> a2 = a1 \<and> wf_area a1 \<and>
                get_bt a1 root = Some (zero_bt\<lparr>bt_namelen := seg_size name,
                                                bt_name := take (seg_size name) name\<rparr>) \<and>
                pa_bytes_used a \<le> pa_bytes_used a1"
    if nd: "get_bt a cur = Some node"
      and cr: "children_root a cur node name (seg_size name) alloc = (Some root, a1)"
      and fp: "find_prop_bt k a1 (Some root) name (seg_size name) alloc = Some (Some c', a2)"
    for node root a1 c' a2
  proof -
    have node: "node = n" using nd less.prems(3) by simp
    note cn = children_root_new [OF cr nd _ less.prems(2)]
    note cw = children_root_node [OF cr nd seg_size_le less.prems(2)]
    have g: "get_bt a1 root = Some (zero_bt\<lparr>bt_namelen := seg_size name,
                                                bt_name := take (seg_size name) name\<rparr>)"
      using cn(2) node less.prems(4) by simp
    have b: "pa_bytes_used a \<le> pa_bytes_used a1"
      using children_root_step(1) [OF cr nd seg_size_le] alloc_step_grows(1) [OF _ less.prems(2)]
      by (auto simp add: less_imp_le)
    show ?thesis using find_prop_bt_exact [OF fp g] cn(1) node less.prems(4) cw(3) g b by simp
  qed
  from less.prems(1) show ?case
  proof (cases rule: traverse_loop_cases)
    case (last node root a1 c')
    then show ?thesis using common [OF last(2,3,4)] by (auto simp add: zero_bt_def)
  next
    case (more node root a1 c' a2 i)
    note cm = common [OF more(2,3,4)]
    have t: "traverse_loop k a1 root (drop (i + 1) name) alloc = Some (Some c, a')"
      using more(7) cm by simp
    have "pa_bytes_used a1 \<le> c \<and> (\<exists>n'. get_bt a' c = Some n' \<and> bt_prop n' = 0)"
      using more(6) cm by (intro less.hyps [OF _ t]) (auto simp add: zero_bt_def)
    then show ?thesis using cm by simp
  qed simp_all
qed

lemma find_prop_bt_new:
  assumes "find_prop_bt k a cur name n alloc = Some (Some c, a')" and "wf_area a"
  shows "a' = a \<or> (c = pa_bytes_used a \<and> pa_bytes_used a \<le> pa_bytes_used a' \<and>
           get_bt a' c = Some (zero_bt\<lparr>bt_namelen := n, bt_name := take n name\<rparr>))"
proof -
  from find_prop_bt_result [OF assms(1)] show ?thesis
  proof (elim disjE conjE exE)
    fix c0 node ret off a1
    assume h: "get_bt a c0 = Some node" "new_prop_bt a name n = Some (off, a1)"
      "Some c = Some off" "a' = upd_bt a1 c0 (set_next ret off)"
    have oc: "off \<noteq> c0"
      using new_prop_bt_Some(1) [OF h(2)] wf_area_below(1) [OF assms(2) h(1)] by auto
    have "get_bt a' off = Some (zero_bt\<lparr>bt_namelen := n, bt_name := take n name\<rparr>)"
      using oc by (simp add: h(4) get_upd_bt new_prop_bt_get [OF h(2)])
    then show ?thesis using new_prop_bt_Some(1,2) [OF h(2)] h(3,4) by simp
  qed simp_all
qed

lemma traverse_fresh:
  "traverse_loop k a cur name alloc = Some (Some c, a') \<Longrightarrow> wf_area a \<Longrightarrow>
   a' = a \<or> (pa_bytes_used a \<le> c \<and> (\<exists>n'. get_bt a' c = Some n' \<and> bt_prop n' = 0))"
proof (induction "length name" arbitrary: a cur name rule: less_induct)
  case less
  obtain node where nd: "get_bt a cur = Some node"
    using less.prems(1) by (cases rule: traverse_loop_cases) auto
  show ?case
  proof (cases "bt_children node = 0")
    case True
    then show ?thesis using traverse_from_leaf [OF less.prems nd] by simp
  next
    case False
    have a1: "a1 = a"
      if "children_root a cur node name (seg_size name) alloc = (Some root, a1)" for root a1
      using that False by (auto simp add: children_root_def split: if_splits)
    from less.prems(1) show ?thesis
    proof (cases rule: traverse_loop_cases)
      case (last node' root a1 c')
      then have fp: "find_prop_bt k a (Some root) name (seg_size name) alloc = Some (Some c, a')"
        using a1 nd by simp
      show ?thesis using find_prop_bt_new [OF fp less.prems(2)] by (auto simp add: zero_bt_def)
    next
      case (more node' root a1 c' a2 i)
      then have fp: "find_prop_bt k a (Some root) name (seg_size name) alloc = Some (Some c', a2)"
        using a1 nd by simp
      note w2 = find_prop_bt_wf [OF fp seg_size_le less.prems(2)]
      from find_prop_bt_new [OF fp less.prems(2)] show ?thesis
      proof
        assume "a2 = a"
        then show ?thesis using less.hyps [OF _ more(7) w2(1)] more(6) by simp
      next
        assume h: "c' = pa_bytes_used a \<and> pa_bytes_used a \<le> pa_bytes_used a2 \<and>
           get_bt a2 c' = Some (zero_bt\<lparr>bt_namelen := seg_size name,
                                         bt_name := take (seg_size name) name\<rparr>)"
        then have "pa_bytes_used a2 \<le> c \<and> (\<exists>n'. get_bt a' c = Some n' \<and> bt_prop n' = 0)"
          by (intro traverse_from_leaf [OF more(7) w2(1)]) (auto simp add: zero_bt_def)
        then show ?thesis using h by simp
      qed
    qed simp_all
  qed
qed

lemma prop_target:
  assumes "wf_area a" and "get_bt a c = Some n" and "bt_prop n \<noteq> 0"
  shows "to_prop_obj a (bt_prop n) = Some (bt_prop n)" and "get_info a (bt_prop n) \<noteq> None"
    and "entry_ok a (bt_prop n)"
proof -
  have "prop_ok a c (bt_prop n)" using wf_areaD(4) [OF assms(1,2)] by (simp add: node_ok_def)
  then show e: "entry_ok a (bt_prop n)" using assms(3) by (simp add: prop_ok_def)
  then show g: "get_info a (bt_prop n) \<noteq> None" by (auto simp add: entry_ok_def split: option.splits)
  then obtain i where "get_info a (bt_prop n) = Some i" by auto
  then have "bt_prop n < pa_bytes_used a" using wf_area_below(2) [OF assms(1)] by blast
  then show "to_prop_obj a (bt_prop n) = Some (bt_prop n)"
    using wf_areaD(1) [OF assms(1)] by (simp add: to_prop_obj_def)
qed

lemma find_Some_cases:
  assumes "prop_area_find k a name = Some r" and "wf_area a"
  obtains (nonode) "traverse_loop k a 0 name False = Some (None, a)" "r = None"
  | (absent) c node where "traverse_loop k a 0 name False = Some (Some c, a)"
      "get_bt a c = Some node" "bt_prop node = 0" "r = None"
  | (found) c node where "traverse_loop k a 0 name False = Some (Some c, a)"
      "get_bt a c = Some node" "bt_prop node \<noteq> 0" "r = Some (bt_prop node)"
proof -
  obtain a1 where f: "find_property k a (Some 0) name (length name) [] 0 False = Some (r, a1)"
    using assms(1) by (auto simp add: prop_area_find_def)
  note na = find_property_bytes(4) [OF f]
  from f show thesis
  proof (cases rule: find_property_cases)
    case nonode
    then show ?thesis using na that(1) by simp
  next
    case (found c node)
    then show ?thesis using na that(3) [of c node] prop_target(1) [OF assms(2), of c node] by simp
  next
    case (absent c node)
    then show ?thesis using na that(2) by simp
  qed simp_all
qed

lemma find_after_traverse:
  assumes t: "traverse_loop k a 0 name alloc = Some (Some c, a1)" and wa: "wf_area a"
      and e: "ext a1 b" and wb: "wf_area b" and kb: "pa_data_size b \<le> k'"
      and n: "get_bt b c = Some node"
  shows "traverse_loop k' b 0 name alloc2 = Some (Some c, b)"
    and "prop_area_find k' b name = Some (if bt_prop node = 0 then None else Some (bt_prop node))"
proof -
  have tt: "traverse_loop k' b 0 name al = Some (Some c, b)" for al
  proof -
    obtain r where "traverse_loop k' b 0 name al = Some r"
      using traverse_loop_total [OF wb wf_areaD(3) [OF wb] kb] by blast
    then show ?thesis using traverse_replay [OF t wa e wb] by simp
  qed
  show "traverse_loop k' b 0 name alloc2 = Some (Some c, b)" using tt .
  show "prop_area_find k' b name = Some (if bt_prop node = 0 then None else Some (bt_prop node))"
    using tt [of False] n prop_target(1) [OF wb n]
    by (simp add: prop_area_find_def find_property_def)
qed

text \<open>An \<^verbatim>\<open>add\<close> of a name that has an entry changes nothing and returns true.\<close>

lemma add_existing:
  assumes "prop_area_find k a name = Some (Some p)" and "wf_area a" and "pa_data_size a \<le> k'"
  shows "prop_area_add k' a name namelen v valuelen = Some (True, a)"
  using assms(1,2)
proof (cases rule: find_Some_cases)
  case (found c node)
  have "traverse_loop k' a 0 name True = Some (Some c, a)"
    using find_after_traverse(1) [OF found(1) assms(2) ext_refl assms(2,3) found(2)] .
  then show ?thesis using found(2,3) prop_target(1) [OF assms(2) found(2,3)]
    by (simp add: prop_area_add_def find_property_def)
qed simp_all

text \<open>An \<^verbatim>\<open>add\<close> that returns true for a name that had no entry has made the entry.\<close>

lemma add_new_entry:
  assumes f: "prop_area_find k a name = Some None" and wa: "wf_area a"
      and ad: "prop_area_add k' a name namelen v valuelen = Some (True, a')"
      and k2: "pa_data_size a \<le> k2"
  obtains off info where
    "prop_area_find k2 a' name = Some (Some off)" "get_info a' off = Some info"
    "wf_area a'" "pa_data_size a' = pa_data_size a" "off \<noteq> 0"
    "valuelen < PROP_VALUE_MAX \<Longrightarrow> info = prop_info_short name namelen v valuelen"
    "PROP_VALUE_MAX \<le> valuelen \<Longrightarrow>
       is_long info \<and> pi_name info = take namelen name \<and>
       pi_serial info = push_bit 24 (of_nat (length kLongLegacyError)) OR kLongFlag \<and>
       pi_value info = memcpy (replicate PROP_VALUE_MAX NUL) (kLongLegacyError @ [NUL])
                         (length kLongLegacyError + 1) \<and>
       get_blob a' (off + pi_long_offset info) = Some (take valuelen v @ [NUL])"
proof -
  obtain p where fp: "find_property k' a (Some 0) name namelen v valuelen True = Some (Some p, a')"
    using ad by (auto simp add: prop_area_add_def)
  note wa' = find_property_wf [OF fp wa]
  note ba' = find_property_bytes(2) [OF fp]
  from fp show thesis
  proof (cases rule: find_property_cases)
    case (found c node)
    have a': "a' = a" using traverse_fresh [OF found(1) wa] found(2,3) by auto
    note rp = traverse_replay [OF found(1) [unfolded a'] wa ext_refl wa]
    from f wa show ?thesis
    proof (cases rule: find_Some_cases)
      case nonode
      then show ?thesis using rp [of k False "(None, a)"] by simp
    next
      case (absent c2 node2)
      then show ?thesis using rp [of k False "(Some c2, a)"] found(2,3) a' by simp
    qed simp_all
  next
    case (created c node a1 off a2)
    note t = traverse_loop_ext [OF created(1) wa]
    from created(5) t(2) created(2) created(7) obtain info where
      el: "off \<noteq> 0"
      "\<And>k. get_bt a' k = (if k = c then Some (node\<lparr>bt_prop := off\<rparr>) else get_bt a1 k)"
      "\<And>k. get_info a' k = (if k = off then Some info else get_info a1 k)"
      "valuelen < PROP_VALUE_MAX \<Longrightarrow> info = prop_info_short name namelen v valuelen"
      "PROP_VALUE_MAX \<le> valuelen \<Longrightarrow>
       is_long info \<and> pi_name info = take namelen name \<and>
       pi_serial info = push_bit 24 (of_nat (length kLongLegacyError)) OR kLongFlag \<and>
       pi_value info = memcpy (replicate PROP_VALUE_MAX NUL) (kLongLegacyError @ [NUL])
                         (length kLongLegacyError + 1) \<and>
       get_blob a' (off + pi_long_offset info) = Some (take valuelen v @ [NUL])"
      "pa_serial a' = pa_serial a1" "pa_dirty_backup a' = pa_dirty_backup a1"
      by (rule entry_linkE) blast
    have e: "ext a1 a'"
      unfolding ext_def using created(2,3) by (auto simp add: el(2) node_kept_def)
    have "prop_area_find k2 a' name = Some (Some off)"
      using find_after_traverse(2) [OF created(1) wa e wa', of k2 "node\<lparr>bt_prop := off\<rparr>"]
        k2 ba' el(1) by (simp add: el(2))
    moreover have "get_info a' off = Some info" by (simp add: el(3))
    ultimately show ?thesis using that [of off info] wa' ba' el by simp
  qed simp_all
qed

section \<open>Evaluation on concrete areas\<close>

lemma find_prop_bt_numeral:
  "find_prop_bt (numeral k) a (Some cur) name n alloc =
     (case get_bt a cur of
        None \<Rightarrow> None
      | Some node \<Rightarrow>
          (let ret = cmp_prop_name name n (bt_name node) (bt_namelen node)
           in if ret = 0 then Some (Some cur, a)
              else if next_link node ret \<noteq> 0
              then find_prop_bt (pred_numeral k) a (to_prop_obj a (next_link node ret)) name n alloc
              else if \<not> alloc then Some (None, a)
              else (case new_prop_bt a name n of
                      None \<Rightarrow> Some (None, a)
                    | Some (new_offset, a') \<Rightarrow>
                        Some (Some new_offset, upd_bt a' cur (set_next ret new_offset)))))"
  using find_prop_bt_Suc [of "pred_numeral k" a cur name n alloc] by (simp add: numeral_eq_Suc)

lemmas eval_area = traverse_loop_unfold seg_size_def children_root_def
  new_prop_bt_def allocate_obj_def BIONIC_ALIGN_def get_bt_def get_info_def put_obj_def upd_bt_def
  new_prop_area_def zero_bt_def sizeof_prop_bt_def PA_SIZE_def find_prop_bt_numeral
  cmp_prop_name_def new_prop_info_def sizeof_prop_info_def PROP_VALUE_MAX_def Let_def to_prop_obj_def
  next_link_def set_next_def

section \<open>The store after an operation on one of its areas\<close>

lemma example_index_routes: "GetPropertyInfoIndexes example_index name = (0, NO_INDEX)"
  by (cases "strchr name CHR ''.''")
     (simp_all add: GetPropertyInfoIndexes_def example_index_def descend.simps
        CheckPrefixMatch_def FindChildForString_def Find_def Find_loop.simps NO_INDEX_def)

lemma empty_store_simps:
  "GetPropAreaForName empty_store name = Some 0"
  "context_area empty_store i = (if i = 0 then Some (new_prop_area 128) else None)"
  "sp_initialized empty_store" "sp_rw empty_store" "sp_serial_prop_area empty_store \<noteq> None"
  by (simp_all add: GetPropAreaForName_def empty_store_def example_index_routes NO_INDEX_def
        context_area_def)

lemma empty_store_wf: "wf_store 130944 empty_store"
  using example_area_wf by (simp add: wf_store_def empty_store_simps)

lemma GetPropAreaForName_Some:
  assumes "GetPropAreaForName sp name = Some i"
  shows "i < length (sp_context_nodes sp)" and "sp_context_nodes sp ! i \<noteq> None"
    and "context_area sp i \<noteq> None"
  using assms
  by (auto simp add: GetPropAreaForName_def Let_def context_area_def split: if_splits option.splits)

lemma area_replaced:
  assumes "GetPropAreaForName sp n0 = Some i"
  shows "GetPropAreaForName (bump_serial (set_context_area sp i a)) n1 = GetPropAreaForName sp n1"
    and "context_area (bump_serial (set_context_area sp i a)) j =
           (if j = i then Some a else context_area sp j)"
    and "sp_initialized (bump_serial (set_context_area sp i a)) = sp_initialized sp"
proof -
  note g = GetPropAreaForName_Some [OF assms]
  define sp' where "sp' = bump_serial (set_context_area sp i a)"
  have n: "sp_context_nodes sp' = (sp_context_nodes sp)[i := Some a]"
    and p: "sp_property_info sp' = sp_property_info sp"
    and "sp_initialized sp' = sp_initialized sp"
    by (simp_all add: sp'_def bump_serial_def set_context_area_def)
  then show "sp_initialized (bump_serial (set_context_area sp i a)) = sp_initialized sp"
    by (simp add: sp'_def)
  show "context_area (bump_serial (set_context_area sp i a)) j =
           (if j = i then Some a else context_area sp j)"
    using g(1) n by (simp add: sp'_def [symmetric] context_area_def)
  have "GetPropAreaForName sp' n1 = GetPropAreaForName sp n1"
  proof -
    define x where "x = fst (GetPropertyInfoIndexes (sp_property_info sp) n1)"
    show ?thesis
    proof (cases "unat x = i")
      case True
      then show ?thesis using g n p
        by (auto simp add: GetPropAreaForName_def Let_def x_def [symmetric])
    next
      case False
      then show ?thesis using n p
        by (simp add: GetPropAreaForName_def Let_def x_def [symmetric])
    qed
  qed
  then show "GetPropAreaForName (bump_serial (set_context_area sp i a)) n1 = GetPropAreaForName sp n1"
    by (simp add: sp'_def)
qed

lemma Add_success:
  assumes "SystemProperties_Add k sp name namelen v valuelen = Some (0, sp')"
  obtains i pa pa' where "sp_initialized sp" "GetPropAreaForName sp name = Some i"
    "context_area sp i = Some pa" "prop_area_add k pa name namelen v valuelen = Some (True, pa')"
    "sp' = bump_serial (set_context_area sp i pa')"
    "PROP_VALUE_MAX \<le> valuelen \<Longrightarrow> is_read_only name"
  using assms
  by (auto simp add: SystemProperties_Add_def split: if_splits option.splits)

lemma Find_in_area:
  assumes "sp_initialized sp" and "GetPropAreaForName sp name = Some i"
      and "context_area sp i = Some pa"
  shows "SystemProperties_Find k sp name = map_option (map_option (\<lambda>off. (i, off))) (prop_area_find k pa name)"
  using assms by (simp add: SystemProperties_Find_def)

text \<open>What a successful \<^verbatim>\<open>Add\<close> of a name that had no entry leaves in the store.\<close>

lemma Add_created:
  assumes ws: "wf_store k sp" and fi: "SystemProperties_Find k sp name = Some None"
      and ad: "SystemProperties_Add k sp name namelen v valuelen = Some (0, sp')"
  obtains i off info a' where
    "SystemProperties_Find k sp' name = Some (Some (i, off))"
    "context_area sp' i = Some a'" "get_info a' off = Some info"
    "deref_info sp' (i, off) = Some info"
    "valuelen < PROP_VALUE_MAX \<Longrightarrow> info = prop_info_short name namelen v valuelen"
    "PROP_VALUE_MAX \<le> valuelen \<Longrightarrow>
       is_read_only name \<and> is_long info \<and> pi_name info = take namelen name \<and>
       pi_serial info = push_bit 24 (of_nat (length kLongLegacyError)) OR kLongFlag \<and>
       pi_value info = memcpy (replicate PROP_VALUE_MAX NUL) (kLongLegacyError @ [NUL])
                         (length kLongLegacyError + 1) \<and>
       get_blob a' (off + pi_long_offset info) = Some (take valuelen v @ [NUL])"
proof -
  from ad obtain i pa pa' where s: "sp_initialized sp" "GetPropAreaForName sp name = Some i"
    "context_area sp i = Some pa" "prop_area_add k pa name namelen v valuelen = Some (True, pa')"
    "sp' = bump_serial (set_context_area sp i pa')"
    "PROP_VALUE_MAX \<le> valuelen \<Longrightarrow> is_read_only name"
    by (rule Add_success) blast
  have w: "wf_area pa" "pa_data_size pa \<le> k" using ws s(3) by (auto simp add: wf_store_def)
  have "map_option (map_option (\<lambda>off. (i, off))) (prop_area_find k pa name) = Some None"
    using fi Find_in_area [OF s(1,2,3)] by simp
  then have f: "prop_area_find k pa name = Some None" by auto
  from f w(1) s(4) w(2) obtain off info where
    e: "prop_area_find k pa' name = Some (Some off)" "get_info pa' off = Some info"
    "valuelen < PROP_VALUE_MAX \<Longrightarrow> info = prop_info_short name namelen v valuelen"
    "PROP_VALUE_MAX \<le> valuelen \<Longrightarrow>
       is_long info \<and> pi_name info = take namelen name \<and>
       pi_serial info = push_bit 24 (of_nat (length kLongLegacyError)) OR kLongFlag \<and>
       pi_value info = memcpy (replicate PROP_VALUE_MAX NUL) (kLongLegacyError @ [NUL])
                         (length kLongLegacyError + 1) \<and>
       get_blob pa' (off + pi_long_offset info) = Some (take valuelen v @ [NUL])"
    by (rule add_new_entry) blast
  note r = area_replaced [OF s(2), of pa', folded s(5)]
  have c: "context_area sp' i = Some pa'" using r(2) by simp
  have "SystemProperties_Find k sp' name = Some (Some (i, off))"
    using Find_in_area [of sp' name i pa' k] r s(1,2) e(1) by simp
  moreover have "deref_info sp' (i, off) = Some info" using c e(2) by (simp add: deref_info_def)
  ultimately show thesis using that [of i off pa' info] c e(2,3,4) s(6) by blast
qed

lemma serial_short: "len < 256 \<Longrightarrow> SERIAL_DIRTY (push_bit 24 (of_nat len)) = 0"
  by (simp add: dirty_iff_even)

lemma Read_short:
  assumes d: "deref_info sp pi = Some (prop_info_short name namelen v (strlen v))"
      and l: "strlen v < PROP_VALUE_MAX" and o: "length out = PROP_VALUE_MAX"
  shows "\<exists>out'. SystemProperties_Read sp pi None out = Some (int (strlen v), None, out') \<and>
               c_str out' = c_str v \<and> length out' = PROP_VALUE_MAX"
proof -
  define info where "info = prop_info_short name namelen v (strlen v)"
  have l': "strlen v < 256" using l by (simp add: PROP_VALUE_MAX_def)
  have ser: "pi_serial info = push_bit 24 (of_nat (strlen v))"
    by (simp add: info_def prop_info_short_def)
  have len: "unat (SERIAL_VALUE_LEN (pi_serial info)) = strlen v"
    using unat_len24 [OF l'] by (simp add: ser)
  have val: "pi_value info = c_str v @ NUL # replicate (PROP_VALUE_MAX - Suc (strlen v)) NUL"
    unfolding info_def using ctor_value_exact [OF refl l] .
  define out' where "out' = memcpy out (pi_value info) (strlen v + 1)"
  have o': "out' = c_str v @ NUL # drop (Suc (strlen v)) out"
    by (simp add: out'_def memcpy_def val strlen_def)
  have rm: "ReadMutablePropertyValue sp pi out = Some (pi_serial info, out')"
    using d serial_short [OF l']
    by (simp add: ReadMutablePropertyValue_def info_def [symmetric] Let_def out'_def ser
          unat_len24 [OF l'])
  have "uint (SERIAL_VALUE_LEN (pi_serial info)) = int (strlen v)"
    using len by (metis uint_nat)
  then have "SystemProperties_Read sp pi None out = Some (int (strlen v), None, out')"
    using rm d by (simp add: SystemProperties_Read_def info_def [symmetric])
  moreover have "c_str out' = c_str v" by (simp add: o' c_str_terminated)
  moreover have "length out' = PROP_VALUE_MAX"
    using l o by (simp add: o' strlen_def [symmetric])
  ultimately show ?thesis by blast
qed

lemma Get_found:
  assumes "SystemProperties_Find k sp name = Some (Some pi)"
      and "SystemProperties_Read sp pi None out = Some (n, None, out')"
  shows "SystemProperties_Get k sp name out = Some (n, out')"
  using assms by (simp add: SystemProperties_Get_def)

text \<open>The round trip for a name that had no entry.\<close>

lemma Get_after_Add:
  assumes "wf_store fuel sp" and "SystemProperties_Find fuel sp name = Some None"
      and "strlen v < PROP_VALUE_MAX"
      and "SystemProperties_Add fuel sp name namelen v (strlen v) = Some (0, sp')"
      and "length out = PROP_VALUE_MAX"
  shows "\<exists>out'. SystemProperties_Get fuel sp' name out = Some (int (strlen v), out') \<and>
               c_str out' = c_str v \<and> length out' = PROP_VALUE_MAX"
proof -
  from assms(1,2,4) obtain i off info where
    f: "SystemProperties_Find fuel sp' name = Some (Some (i, off))"
    and d: "deref_info sp' (i, off) = Some info"
    and s: "strlen v < PROP_VALUE_MAX \<Longrightarrow> info = prop_info_short name namelen v (strlen v)"
    by (rule Add_created) blast
  obtain out' where "SystemProperties_Read sp' (i, off) None out = Some (int (strlen v), None, out')"
    "c_str out' = c_str v" "length out' = PROP_VALUE_MAX"
    using Read_short [OF d [unfolded s [OF assms(3)]] assms(3,5)] by blast
  then show ?thesis using Get_found [OF f] by blast
qed

text \<open>An \<^verbatim>\<open>Add\<close> of a name that has an entry succeeds and leaves every area as it is.\<close>

lemma Add_existing:
  assumes ws: "wf_store k sp" and fi: "SystemProperties_Find k sp name = Some (Some pi)"
      and g: "valuelen < PROP_VALUE_MAX" "1 \<le> namelen" "sp_rw sp" "sp_serial_prop_area sp \<noteq> None"
  shows "SystemProperties_Add k sp name namelen v valuelen = Some (0, bump_serial sp)"
proof -
  from fi obtain i pa p where s: "sp_initialized sp" "GetPropAreaForName sp name = Some i"
    "context_area sp i = Some pa" "prop_area_find k pa name = Some (Some p)"
    by (auto simp add: SystemProperties_Find_def split: if_splits option.splits)
  have w: "wf_area pa" "pa_data_size pa \<le> k" using ws s(3) by (auto simp add: wf_store_def)
  have a: "prop_area_add k pa name namelen v valuelen = Some (True, pa)"
    using add_existing [OF s(4) w] .
  have "i < length (sp_context_nodes sp)" "sp_context_nodes sp ! i = Some pa"
    using s(3) by (auto simp add: context_area_def split: if_splits)
  then have "(sp_context_nodes sp)[i := Some pa] = sp_context_nodes sp"
    by (simp add: list_update_same_conv)
  then have "set_context_area sp i pa = sp"
    by (simp add: set_context_area_def)
  then show ?thesis using s g a by (simp add: SystemProperties_Add_def)
qed

lemma bump_serial_simps [simp]:
  "sp_context_nodes (bump_serial sp) = sp_context_nodes sp"
  "sp_property_info (bump_serial sp) = sp_property_info sp"
  "sp_initialized (bump_serial sp) = sp_initialized sp"
  "sp_rw (bump_serial sp) = sp_rw sp"
  by (simp_all add: bump_serial_def)

lemma Get_bump_serial [simp]:
  "SystemProperties_Get k (bump_serial sp) name out = SystemProperties_Get k sp name out"
proof -
  have c: "context_area (bump_serial sp) = context_area sp"
    by (simp add: fun_eq_iff context_area_def)
  have g: "GetPropAreaForName (bump_serial sp) = GetPropAreaForName sp"
    unfolding fun_eq_iff GetPropAreaForName_def by (simp only: bump_serial_simps) simp
  have d: "deref_info (bump_serial sp) = deref_info sp"
    by (simp add: fun_eq_iff deref_info_def c)
  have f: "SystemProperties_Find k (bump_serial sp) name = SystemProperties_Find k sp name"
    unfolding SystemProperties_Find_def c g by simp
  have r: "SystemProperties_Read (bump_serial sp) pi x out = SystemProperties_Read sp pi x out"
    for pi x
    unfolding SystemProperties_Read_def ReadMutablePropertyValue_def c g d by simp
  show ?thesis unfolding SystemProperties_Get_def f r by simp
qed

lemma wf_store_Add:
  assumes "wf_store k sp" and "SystemProperties_Add k sp name namelen v valuelen = Some (r, sp')"
  shows "wf_store k sp'"
proof -
  have "wf_store k (set_context_area sp i pa')"
    if "context_area sp i = Some pa" "prop_area_add k pa name namelen v valuelen = Some (x, pa')"
    for i pa pa' x
  proof -
    have "wf_area pa" "pa_data_size pa \<le> k" using assms(1) that(1) by (auto simp add: wf_store_def)
    then have "wf_area pa'" "pa_data_size pa' \<le> k" using add_wf(2,4) [OF that(2)] by simp_all
    then show ?thesis using assms(1) by (auto simp add: wf_store_def context_area_set split: if_splits)
  qed
  moreover have "wf_store k (bump_serial s) = wf_store k s" for s
    by (simp add: wf_store_def context_area_def)
  ultimately show ?thesis using assms
    by (auto simp add: SystemProperties_Add_def split: if_splits option.splits)
qed

lemma empty_store_Find: "SystemProperties_Find 130944 empty_store name = Some None"
  if "prop_area_find 130944 (new_prop_area 128) name = Some None"
  using that Find_in_area [of empty_store name 0 "new_prop_area 128" 130944]
  by (simp add: empty_store_simps)

lemma empty_store_Add:
  assumes "prop_area_add 130944 (new_prop_area 128) name namelen v valuelen = Some (True, a')"
      and "valuelen < PROP_VALUE_MAX \<or> is_read_only name" and "1 \<le> namelen"
  shows "SystemProperties_Add 130944 empty_store name namelen v valuelen =
           Some (0, bump_serial (set_context_area empty_store 0 a'))"
  using assms by (auto simp add: SystemProperties_Add_def empty_store_simps)

lemma example_find: "prop_area_find 130944 (new_prop_area 128) ''a.b'' = Some None"
  by (simp add: prop_area_find_def find_property_def eval_area)

lemma example_add:
  "\<exists>a'. prop_area_add 130944 (new_prop_area 128) ''a.b'' 3 ''one'' 3 = Some (True, a')"
  by (simp add: prop_area_add_def find_property_def eval_area)

lemma example_add_again:
  "\<exists>a'. prop_area_add 130944 (new_prop_area 128) ''a.b'' 3 ''1'' 1 = Some (True, a')"
  by (simp add: prop_area_add_def find_property_def eval_area)

lemma strlen_example [simp]: "strlen ''one'' = 3" "strlen ''1'' = 1" "strlen ''2'' = 1"
  "c_str ''one'' = ''one''" "c_str ''1'' = ''1''"
  by (simp_all add: strlen_def c_str_def NUL_def)

lemma legacy_length [simp]: "length kLongLegacyError = 50"
  by (simp add: kLongLegacyError_def)

lemma legacy_no_NUL: "NUL \<notin> set kLongLegacyError"
  by (simp add: kLongLegacyError_def NUL_def)

lemma long_serial:
  "SERIAL_DIRTY (push_bit 24 (of_nat (length kLongLegacyError)) OR kLongFlag) = 0"
  "SERIAL_VALUE_LEN (push_bit 24 (of_nat (length kLongLegacyError)) OR kLongFlag) = 50"
proof -
  show "SERIAL_DIRTY (push_bit 24 (of_nat (length kLongLegacyError)) OR kLongFlag) = 0"
    by (simp add: dirty_iff_even kLongFlag_def even_or_iff)
  have "drop_bit 24 (push_bit 24 (50 :: u32) OR push_bit 16 1) = 50"
    by (simp add: drop_bit_eq_div push_bit_eq_mult)
  then show "SERIAL_VALUE_LEN (push_bit 24 (of_nat (length kLongLegacyError)) OR kLongFlag) = 50"
    by (simp add: SERIAL_VALUE_LEN_def kLongFlag_def)
qed

lemma Read_long:
  assumes d: "deref_info sp pi = Some info"
      and s: "pi_serial info = push_bit 24 (of_nat (length kLongLegacyError)) OR kLongFlag"
      and v: "pi_value info = memcpy (replicate PROP_VALUE_MAX NUL) (kLongLegacyError @ [NUL])
                         (length kLongLegacyError + 1)"
      and o: "length out = PROP_VALUE_MAX"
  shows "\<exists>out'. SystemProperties_Read sp pi None out =
                 Some (int (length kLongLegacyError), None, out') \<and>
               c_str out' = kLongLegacyError \<and> length out' = PROP_VALUE_MAX"
proof -
  have val: "pi_value info = kLongLegacyError @ NUL # replicate 41 NUL"
    by (simp add: v memcpy_def PROP_VALUE_MAX_def)
  define out' where "out' = memcpy out (pi_value info) 51"
  have o': "out' = kLongLegacyError @ NUL # drop 51 out"
    by (simp add: out'_def memcpy_def val)
  have rm: "ReadMutablePropertyValue sp pi out = Some (pi_serial info, out')"
    using d long_serial by (simp add: ReadMutablePropertyValue_def Let_def out'_def s)
  have "SystemProperties_Read sp pi None out = Some (50, None, out')"
    using rm d long_serial(2) by (simp add: SystemProperties_Read_def s)
  moreover have "c_str out' = kLongLegacyError" by (simp add: o' c_str_terminated legacy_no_NUL)
  moreover have "length out' = PROP_VALUE_MAX"
    using o by (simp add: o' PROP_VALUE_MAX_def)
  ultimately show ?thesis by simp
qed

lemma is_read_only_take:
  "is_read_only name \<Longrightarrow> is_read_only (take (length name) name)"
  by simp

lemma ReadCallback_long:
  assumes d: "deref_info sp (i, off) = Some info" and c: "context_area sp i = Some a"
      and r: "is_read_only (pi_name info)" and l: "is_long info"
      and b: "get_blob a (off + pi_long_offset info) = Some (take (strlen v) v @ [NUL])"
  shows "SystemProperties_ReadCallback sp (i, off) callback cookie =
           Some (callback cookie (pi_name info) (c_str v) (pi_serial info))"
proof -
  have "long_value sp (i, off) info = Some (c_str (c_str v @ [NUL]))"
    using c b by (simp add: long_value_def get_blob_Some take_strlen)
  then show ?thesis using d r l
    by (simp add: SystemProperties_ReadCallback_def c_str_terminated)
qed

lemma strlen_replicate: "c \<noteq> NUL \<Longrightarrow> strlen (replicate n c) = n"
  "c \<noteq> NUL \<Longrightarrow> c_str (replicate n c) = replicate n c"
  by (simp_all add: strlen_def c_str_def)

lemma example_long_find: "prop_area_find 130944 (new_prop_area 128) ''ro.x'' = Some None"
  by (simp add: prop_area_find_def find_property_def eval_area)

lemma example_long_add:
  "\<exists>a'. prop_area_add 130944 (new_prop_area 128) ''ro.x'' 4 v 100 = Some (True, a')"
  by (simp add: prop_area_add_def find_property_def eval_area)

section \<open>The shape of the trie is kept\<close>

lemma addressedI:
  assumes "\<And>v n x. get_bt a v = Some n \<Longrightarrow> get_lnk x n \<noteq> 0 \<Longrightarrow>
             path (get_lnk x n) = path v @ [(x, bt_name n)]"
  shows "addressed a"
  unfolding addressed_def using assms by blast

lemma addressedE:
  assumes "addressed a"
  obtains path where "\<forall>v n x. get_bt a v = Some n \<longrightarrow> get_lnk x n \<noteq> 0 \<longrightarrow>
             path (get_lnk x n) = path v @ [(x, bt_name n)]"
  using assms unfolding addressed_def by blast

lemma get_lnk_upd:
  "get_lnk x (n\<lparr>bt_left := off\<rparr>) = (if x = L_left then off else get_lnk x n)"
  "get_lnk x (n\<lparr>bt_right := off\<rparr>) = (if x = L_right then off else get_lnk x n)"
  "get_lnk x (n\<lparr>bt_children := off\<rparr>) = (if x = L_children then off else get_lnk x n)"
  "get_lnk x (n\<lparr>bt_prop := off\<rparr>) = get_lnk x n"
  by (cases x; simp)+

lemma props_distinctD:
  "props_distinct a \<Longrightarrow> get_bt a v = Some n \<Longrightarrow> get_bt a w = Some m \<Longrightarrow> bt_prop n \<noteq> 0 \<Longrightarrow>
   bt_prop n = bt_prop m \<Longrightarrow> v = w"
  unfolding props_distinct_def by blast

lemma shape_cong:
  assumes "\<And>k. get_bt b k = get_bt a k"
  shows "addressed b = addressed a" and "props_distinct b = props_distinct a"
  by (simp_all add: addressed_def props_distinct_def assms)

lemma lnk_target:
  assumes "wf_area a" and "get_bt a c = Some n" and "get_lnk x n \<noteq> 0"
  shows "c < get_lnk x n" and "get_bt a (get_lnk x n) \<noteq> None"
    and "to_prop_obj a (get_lnk x n) = Some (get_lnk x n)" and "get_lnk x n < pa_bytes_used a"
  using link_target [OF assms get_lnk_cases] .

lemma alloc_step_lnk:
  assumes "alloc_step a b" and "wf_area a"
  obtains c node off newnode x0 fnode where
    "get_bt a c = Some node" "off = pa_bytes_used a" "c \<noteq> off" "get_lnk x0 node = 0"
    "\<And>x. get_lnk x fnode = (if x = x0 then off else get_lnk x node)"
    "bt_name fnode = bt_name node" "bt_prop fnode = bt_prop node"
    "\<And>x. get_lnk x newnode = 0" "bt_prop newnode = 0"
    "\<And>k. get_bt b k = (if k = c then Some fnode else if k = off then Some newnode else get_bt a k)"
proof -
  from assms obtain c node off newnode f where
    n: "get_bt a c = Some node" "c < off" "off = pa_bytes_used a"
    and z: "bt_left newnode = 0" "bt_right newnode = 0" "bt_children newnode = 0"
      "bt_prop newnode = 0"
    and f: "bt_left node = 0 \<and> f = (\<lambda>n. n\<lparr>bt_left := off\<rparr>) \<or>
     bt_right node = 0 \<and> f = (\<lambda>n. n\<lparr>bt_right := off\<rparr>) \<or>
     bt_children node = 0 \<and> f = (\<lambda>n. n\<lparr>bt_children := off\<rparr>)"
    and g: "\<And>k. get_bt b k = (if k = c then Some (f node) else if k = off then Some newnode else get_bt a k)"
    by (rule alloc_stepE) blast
  have zl: "get_lnk x newnode = 0" for x using z by (cases x) simp_all
  have "\<exists>x0. get_lnk x0 node = 0 \<and> (\<forall>x. get_lnk x (f node) = (if x = x0 then off else get_lnk x node))"
    using f
  proof (elim disjE conjE)
    assume "bt_left node = 0" "f = (\<lambda>n. n\<lparr>bt_left := off\<rparr>)"
    then have "get_lnk L_left node = 0 \<and>
          (\<forall>x. get_lnk x (f node) = (if x = L_left then off else get_lnk x node))"
      by (simp add: get_lnk_upd)
    then show ?thesis by blast
  next
    assume "bt_right node = 0" "f = (\<lambda>n. n\<lparr>bt_right := off\<rparr>)"
    then have "get_lnk L_right node = 0 \<and>
          (\<forall>x. get_lnk x (f node) = (if x = L_right then off else get_lnk x node))"
      by (simp add: get_lnk_upd)
    then show ?thesis by blast
  next
    assume "bt_children node = 0" "f = (\<lambda>n. n\<lparr>bt_children := off\<rparr>)"
    then have "get_lnk L_children node = 0 \<and>
          (\<forall>x. get_lnk x (f node) = (if x = L_children then off else get_lnk x node))"
      by (simp add: get_lnk_upd)
    then show ?thesis by blast
  qed
  then obtain x0 where x0: "get_lnk x0 node = 0"
    "\<And>x. get_lnk x (f node) = (if x = x0 then off else get_lnk x node)" by blast
  have "bt_name (f node) = bt_name node" "bt_prop (f node) = bt_prop node" using f by auto
  then show thesis using that [of c node off x0 "f node" newnode] n zl z(4) g x0 by auto
qed

lemma alloc_step_shape:
  assumes "alloc_step a b" and "wf_area a"
  shows "addressed a \<Longrightarrow> addressed b" and "props_distinct a \<Longrightarrow> props_distinct b"
proof -
  from assms obtain c node off newnode x0 fnode where
    n: "get_bt a c = Some node" and off: "off = pa_bytes_used a" "c \<noteq> off"
    and x0: "get_lnk x0 node = 0"
    and fl: "\<And>x. get_lnk x fnode = (if x = x0 then off else get_lnk x node)"
    and fn: "bt_name fnode = bt_name node" "bt_prop fnode = bt_prop node"
    and nw: "\<And>x. get_lnk x newnode = 0" "bt_prop newnode = 0"
    and g: "\<And>k. get_bt b k = (if k = c then Some fnode else if k = off then Some newnode else get_bt a k)"
    by (rule alloc_step_lnk) blast
  have old: "get_lnk x m \<noteq> off" if "get_bt a v = Some m" "get_lnk x m \<noteq> 0" for v m x
    using lnk_target(4) [OF assms(2) that] off by simp
  have nooff: "get_bt a off = None"
    using wf_area_below(5) [OF assms(2)] off by (simp add: get_bt_def)
  show "addressed b" if "addressed a"
  proof -
    from that obtain path where "\<forall>v n x. get_bt a v = Some n \<longrightarrow> get_lnk x n \<noteq> 0 \<longrightarrow>
             path (get_lnk x n) = path v @ [(x, bt_name n)]" by (rule addressedE)
    then have p: "\<And>v n x. get_bt a v = Some n \<Longrightarrow> get_lnk x n \<noteq> 0 \<Longrightarrow>
             path (get_lnk x n) = path v @ [(x, bt_name n)]" by blast
    define path' where "path' = path(off := path c @ [(x0, bt_name node)])"
    show ?thesis
    proof (rule addressedI [of b path'])
      fix v m x
      assume h: "get_bt b v = Some m" "get_lnk x m \<noteq> 0"
      show "path' (get_lnk x m) = path' v @ [(x, bt_name m)]"
      proof (cases "v = c")
        case True
        then have m: "m = fnode" using h(1) g by simp
        show ?thesis
        proof (cases "x = x0")
          case True
          then show ?thesis using \<open>v = c\<close> off(2) by (simp add: m fl fn path'_def)
        next
          case False
          then have l: "get_lnk x m = get_lnk x node" "get_lnk x node \<noteq> 0"
            using h(2) by (simp_all add: m fl)
          then show ?thesis using old [OF n l(2)] p [OF n l(2)] \<open>v = c\<close> off(2)
            by (simp add: path'_def m fn)
        qed
      next
        case False
        then have "v \<noteq> off" using h g nw by auto
        then have ga: "get_bt a v = Some m" using h(1) g False by simp
        show ?thesis using old [OF ga h(2)] p [OF ga h(2)] \<open>v \<noteq> off\<close> by (simp add: path'_def)
      qed
    qed
  qed
  show "props_distinct b" if pd: "props_distinct a"
    unfolding props_distinct_def
  proof (intro allI impI, elim conjE)
    fix v w m m'
    assume h: "get_bt b v = Some m" "get_bt b w = Some m'" "bt_prop m \<noteq> 0" "bt_prop m = bt_prop m'"
    have a: "\<exists>m0. get_bt a u = Some m0 \<and> bt_prop m0 = bt_prop mu"
      if "get_bt b u = Some mu" "bt_prop mu \<noteq> 0" for u mu
    proof (cases "u = c")
      case True
      then show ?thesis using that g n fn by simp
    next
      case False
      then show ?thesis using that g nw by (cases "u = off") simp_all
    qed
    obtain m0 where m0: "get_bt a v = Some m0" "bt_prop m0 = bt_prop m" using a [OF h(1,3)] by blast
    obtain m1 where m1: "get_bt a w = Some m1" "bt_prop m1 = bt_prop m'"
      using a [OF h(2)] h(3,4) by auto
    show "v = w" using props_distinctD [OF pd m0(1) m1(1)] m0(2) m1(2) h(3,4) by simp
  qed
qed

lemma alloc_steps_shape:
  "alloc_step\<^sup>*\<^sup>* a b \<Longrightarrow> trie_inv a \<Longrightarrow> trie_inv b"
proof (induction rule: rtranclp_induct)
  case base
  then show ?case by simp
next
  case (step b c)
  then have "trie_inv b" by simp
  then show ?case using alloc_step_shape [OF step.hyps(2)] alloc_step_wf [OF step.hyps(2)]
    by (simp add: trie_inv_def)
qed

lemma trie_inv_new:
  assumes "s + sizeof_prop_bt \<le> PA_SIZE"
  shows "trie_inv (new_prop_area s)"
proof -
  have g: "get_bt (new_prop_area s) off = (if off = 0 then Some zero_bt else None)" for off
    by (simp add: get_bt_def new_prop_area_def)
  have z: "get_lnk x zero_bt = 0" for x by (cases x) (simp_all add: zero_bt_def)
  have "addressed (new_prop_area s)"
    by (rule addressedI [of _ "\<lambda>v. []"]) (simp add: g z split: if_splits)
  moreover have "props_distinct (new_prop_area s)"
    by (simp add: props_distinct_def g zero_bt_def split: if_splits)
  ultimately show ?thesis using wf_area_new [OF assms] by (simp add: trie_inv_def)
qed


text \<open>A store to the entry link of one node, to an offset that no node has.\<close>

lemma set_prop_shape:
  assumes g: "\<And>k. get_bt b k = (if k = c then Some (node\<lparr>bt_prop := off\<rparr>) else get_bt a k)"
      and n: "get_bt a c = Some node"
      and fresh: "off = 0 \<or> (\<forall>v m. get_bt a v = Some m \<longrightarrow> bt_prop m \<noteq> off)"
  shows "addressed a \<Longrightarrow> addressed b" and "props_distinct a \<Longrightarrow> props_distinct b"
proof -
  have nodes: "\<exists>m0. get_bt a v = Some m0 \<and> bt_name m0 = bt_name m \<and>
                 (\<forall>x. get_lnk x m0 = get_lnk x m) \<and> (v \<noteq> c \<longrightarrow> m0 = m)"
    if "get_bt b v = Some m" for v m
    using that n by (cases "v = c") (auto simp add: g get_lnk_upd)
  show "addressed b" if "addressed a"
  proof -
    from that obtain path where "\<forall>v n x. get_bt a v = Some n \<longrightarrow> get_lnk x n \<noteq> 0 \<longrightarrow>
             path (get_lnk x n) = path v @ [(x, bt_name n)]" by (rule addressedE)
    then have p: "\<And>v n x. get_bt a v = Some n \<Longrightarrow> get_lnk x n \<noteq> 0 \<Longrightarrow>
             path (get_lnk x n) = path v @ [(x, bt_name n)]" by blast
    show ?thesis
    proof (rule addressedI [of b path])
      fix v m x
      assume h: "get_bt b v = Some m" "get_lnk x m \<noteq> 0"
      obtain m0 where "get_bt a v = Some m0" "bt_name m0 = bt_name m" "get_lnk x m0 = get_lnk x m"
        using nodes [OF h(1)] by blast
      then show "path (get_lnk x m) = path v @ [(x, bt_name m)]" using p [of v m0 x] h(2) by simp
    qed
  qed
  show "props_distinct b" if pd: "props_distinct a"
    unfolding props_distinct_def
  proof (intro allI impI, elim conjE)
    fix v w m m'
    assume h: "get_bt b v = Some m" "get_bt b w = Some m'" "bt_prop m \<noteq> 0" "bt_prop m = bt_prop m'"
    show "v = w"
    proof (cases "v = c \<or> w = c")
      case False
      then have "get_bt a v = Some m" "get_bt a w = Some m'" using h(1,2) by (simp_all add: g)
      then show ?thesis using props_distinctD [OF pd _ _ h(3,4)] by blast
    next
      case True
      show ?thesis
      proof (rule ccontr)
        assume ne: "v \<noteq> w"
        have "\<exists>u mu. get_bt a u = Some mu \<and> bt_prop mu = off \<and> off \<noteq> 0"
        proof (cases "v = c")
          case True
          then have "get_bt a w = Some m'" "bt_prop m = off" using ne h(1,2) by (auto simp add: g)
          then show ?thesis using h(3,4) by auto
        next
          case False
          then have "w = c" using True by simp
          then have "get_bt a v = Some m" "bt_prop m' = off" using ne h(1,2) by (auto simp add: g)
          then show ?thesis using h(3,4) by auto
        qed
        then show False using fresh by auto
      qed
    qed
  qed
qed

lemma entry_link_shape:
  assumes np: "new_prop_info a name namelen value valuelen = (Some off, a2)"
      and w: "wf_area a" and n: "get_bt a c = Some node"
      and a': "a' = upd_bt a2 c (\<lambda>n. n\<lparr>bt_prop := off\<rparr>)"
  shows "addressed a \<Longrightarrow> addressed a'" and "props_distinct a \<Longrightarrow> props_distinct a'"
proof -
  from np w n a' obtain info where
    off: "off = pa_bytes_used a"
    and g: "\<And>k. get_bt a' k = (if k = c then Some (node\<lparr>bt_prop := off\<rparr>) else get_bt a k)"
    by (rule entry_linkE) blast
  have fresh: "bt_prop m \<noteq> off" if h: "get_bt a v = Some m" "off \<noteq> 0" for v m
  proof
    assume e: "bt_prop m = off"
    then obtain i where "get_info a off = Some i"
      using prop_target(2) [OF w h(1)] h(2) by auto
    then show False using wf_area_below(2) [OF w] off by blast
  qed
  then have f: "off = 0 \<or> (\<forall>v m. get_bt a v = Some m \<longrightarrow> bt_prop m \<noteq> off)" by blast
  show "addressed a \<Longrightarrow> addressed a'" and "props_distinct a \<Longrightarrow> props_distinct a'"
    using set_prop_shape [OF g n f] by simp_all
qed

lemma unlinked_shape:
  assumes "unlinked a node p a4"
  shows "addressed a \<Longrightarrow> addressed a4" and "props_distinct a \<Longrightarrow> props_distinct a4"
proof -
  from assms obtain n where n: "get_bt a node = Some n"
    and g: "\<And>k. get_bt a4 k = (if k = node then Some (n\<lparr>bt_prop := 0\<rparr>) else get_bt a k)"
    by (rule unlinkedE) blast
  show "addressed a \<Longrightarrow> addressed a4" and "props_distinct a \<Longrightarrow> props_distinct a4"
    using set_prop_shape [OF g n] by simp_all
qed

lemma node_shrunk_cases:
  assumes "node_shrunk n n'"
  obtains (wiped) "n' = zero_bt"
  | (kept) "bt_name n' = bt_name n" "bt_prop n' = bt_prop n"
      "\<And>x. get_lnk x n' = 0 \<or> get_lnk x n' = get_lnk x n"
  using assms node_shrunk_lnk [OF assms] by (auto simp add: node_shrunk_def)

lemma get_lnk_zero [simp]: "get_lnk x zero_bt = 0"
  by (cases x) (simp_all add: zero_bt_def)

lemma pruned_shape:
  assumes "pruned a b"
  shows "addressed a \<Longrightarrow> addressed b" and "props_distinct a \<Longrightarrow> props_distinct b"
proof -
  have older: "\<exists>m0. get_bt a v = Some m0 \<and> node_shrunk m0 m" if "get_bt b v = Some m" for v m
  proof (cases "get_bt a v")
    case None
    then show ?thesis using prunedD(8) [OF assms] that by simp
  next
    case (Some m0)
    then show ?thesis using prunedD(9) [OF assms Some] that by auto
  qed
  show "addressed b" if "addressed a"
  proof -
    from that obtain path where "\<forall>v n x. get_bt a v = Some n \<longrightarrow> get_lnk x n \<noteq> 0 \<longrightarrow>
             path (get_lnk x n) = path v @ [(x, bt_name n)]" by (rule addressedE)
    then have p: "\<And>v n x. get_bt a v = Some n \<Longrightarrow> get_lnk x n \<noteq> 0 \<Longrightarrow>
             path (get_lnk x n) = path v @ [(x, bt_name n)]" by blast
    show ?thesis
    proof (rule addressedI [of b path])
      fix v m x
      assume h: "get_bt b v = Some m" "get_lnk x m \<noteq> 0"
      obtain m0 where m0: "get_bt a v = Some m0" "node_shrunk m0 m" using older [OF h(1)] by blast
      from m0(2) show "path (get_lnk x m) = path v @ [(x, bt_name m)]"
      proof (cases rule: node_shrunk_cases)
        case wiped
        then show ?thesis using h(2) by simp
      next
        case kept
        then show ?thesis using p [OF m0(1), of x] h(2) kept(3) [of x] by auto
      qed
    qed
  qed
  show "props_distinct b" if pd: "props_distinct a"
    unfolding props_distinct_def
  proof (intro allI impI, elim conjE)
    fix v w m m'
    assume h: "get_bt b v = Some m" "get_bt b w = Some m'" "bt_prop m \<noteq> 0" "bt_prop m = bt_prop m'"
    have a: "\<exists>m0. get_bt a u = Some m0 \<and> bt_prop m0 = bt_prop mu"
      if hu: "get_bt b u = Some mu" "bt_prop mu \<noteq> 0" for u mu
    proof -
      obtain m0 where m0: "get_bt a u = Some m0" "node_shrunk m0 mu" using older [OF hu(1)] by blast
      from m0(2) show ?thesis
        by (cases rule: node_shrunk_cases) (use hu(2) m0(1) in \<open>auto simp add: zero_bt_def\<close>)
    qed
    obtain m0 where m0: "get_bt a v = Some m0" "bt_prop m0 = bt_prop m" using a [OF h(1,3)] by blast
    obtain m1 where m1: "get_bt a w = Some m1" "bt_prop m1 = bt_prop m'"
      using a [OF h(2)] h(3,4) by auto
    show "v = w" using props_distinctD [OF pd m0(1) m1(1)] m0(2) m1(2) h(3,4) by simp
  qed
qed

lemma find_property_shape:
  assumes "find_property k a (Some t) name namelen value valuelen alloc = Some (p, a')"
      and "trie_inv a"
  shows "trie_inv a'"
proof -
  have w: "wf_area a" using assms(2) by (simp add: trie_inv_def)
  have wa': "wf_area a'" using find_property_wf [OF assms(1) w] .
  have tr: "trie_inv a1" if "traverse_loop k a t name alloc = Some (r, a1)" for r a1
    using traverse_loop_steps(1) [OF that] alloc_steps_shape assms(2) by blast
  from assms(1) show ?thesis
  proof (cases rule: find_property_cases)
    case (full c node a1)
    have "get_bt a' k = get_bt a1 k" for k
      using full(5) by (cases rule: new_prop_info_cases) (simp_all add: get_bt_def)
    then show ?thesis using shape_cong [of a' a1] tr [OF full(1)] wa' by (simp add: trie_inv_def)
  next
    case (created c node a1 off a2)
    have t1: "trie_inv a1" using tr [OF created(1)] .
    then show ?thesis
      using entry_link_shape [OF created(5) _ created(2,7)] wa' by (simp add: trie_inv_def)
  qed (use tr in blast)+
qed

lemma apply_op_shape:
  assumes "apply_op k x a = Some (r, a')" and "trie_inv a"
  shows "trie_inv a'"
proof (cases x)
  case (Add name namelen v valuelen)
  then obtain p where "find_property k a (Some 0) name namelen v valuelen True = Some (p, a')"
    using assms(1) by (auto simp add: prop_area_add_def)
  then show ?thesis using find_property_shape assms(2) by blast
next
  case (Remove name prune)
  then have rm: "prop_area_remove k a name prune = Some (r, a')" using assms(1) by simp
  have w: "wf_area a'" using remove_wf [OF rm] assms(2) by (simp add: trie_inv_def)
  from rm show ?thesis
  proof (cases rule: remove_cases)
    case (removed node p)
    then show ?thesis using unlinked_shape assms(2) w by (simp add: trie_inv_def)
  next
    case (pruned node p a4 r')
    have "pruned a4 a'" using prune_trie_steps [OF pruned(5)] prune_steps_pruned by blast
    then show ?thesis
      using unlinked_shape [OF pruned(2)] pruned_shape [of a4 a'] assms(2) w
      by (simp add: trie_inv_def)
  qed (use assms(2) in simp_all)
qed

lemma apply_ops_shape:
  "apply_ops k ops a = Some a' \<Longrightarrow> trie_inv a \<Longrightarrow> trie_inv a'"
proof (induction ops arbitrary: a)
  case Nil
  then show ?case by simp
next
  case (Cons x xs)
  then obtain r a1 where s: "apply_op k x a = Some (r, a1)" and t: "apply_ops k xs a1 = Some a'"
    by (auto split: option.splits)
  show ?case using Cons.IH [OF t apply_op_shape [OF s Cons.prems(2)]] .
qed

text \<open>
  Claim C7. The value of \<^verbatim>\<open>bytes_used\<close> never decreases across a sequence of operations
  (\<^verbatim>\<open>add\<close>, successful or not, and \<^verbatim>\<open>remove\<close>, with or without pruning), and it stays a
  multiple of 4; on a well-formed area every such sequence returns. An allocation returns
  the old value of \<^verbatim>\<open>bytes_used\<close> and advances it by the size rounded up to a multiple of
  4. Pruning leaves \<^verbatim>\<open>bytes_used\<close> and every entry as they are: all it does to a node is
  to zero it or to clear some of its links.
\<close>

theorem bytes_used_never_decreases:
  "(apply_ops fuel ops a = Some a' \<longrightarrow>
      pa_bytes_used a \<le> pa_bytes_used a' \<and> (4 dvd pa_bytes_used a \<longrightarrow> 4 dvd pa_bytes_used a')) \<and>
   (wf_area a \<and> pa_data_size a \<le> fuel \<longrightarrow> apply_ops fuel ops a \<noteq> None) \<and>
   (allocate_obj a sz = Some (off, a1) \<longrightarrow>
      off = pa_bytes_used a \<and> pa_bytes_used a1 = pa_bytes_used a + BIONIC_ALIGN sz 4 \<and>
      sz \<le> BIONIC_ALIGN sz 4 \<and> 4 dvd BIONIC_ALIGN sz 4 \<and> pa_data a1 = pa_data a) \<and>
   (prune_trie fuel a node = Some (r, a2) \<longrightarrow> pruned a a2)"
proof (intro conjI impI)
  show "pa_bytes_used a \<le> pa_bytes_used a'" if "apply_ops fuel ops a = Some a'"
    using apply_ops_bytes [OF that] .
  show "4 dvd pa_bytes_used a'" if "apply_ops fuel ops a = Some a'" "4 dvd pa_bytes_used a"
    using apply_ops_aligned [OF that] .
  show "apply_ops fuel ops a \<noteq> None" if "wf_area a \<and> pa_data_size a \<le> fuel"
    using apply_ops_total that by blast
  show "pruned a a2" if "prune_trie fuel a node = Some (r, a2)"
    using prune_trie_steps [OF that] prune_steps_pruned by blast
next
  assume al: "allocate_obj a sz = Some (off, a1)"
  show "off = pa_bytes_used a" using allocate_obj_Some(1) [OF al] .
  show "pa_bytes_used a1 = pa_bytes_used a + BIONIC_ALIGN sz 4" "pa_data a1 = pa_data a"
    using allocate_obj_Some(2) [OF al] by simp_all
  show "sz \<le> BIONIC_ALIGN sz 4" "4 dvd BIONIC_ALIGN sz 4" using BIONIC_ALIGN_4 by simp_all
qed

theorem bytes_used_never_decreases_witness:
  "wf_area (new_prop_area 128) \<and> pa_data_size (new_prop_area 128) \<le> 130944 \<and>
   4 dvd pa_bytes_used (new_prop_area 128) \<and>
   (\<exists>a'. apply_ops 130944 example_ops (new_prop_area 128) = Some a' \<and>
         20 \<le> pa_bytes_used a' \<and> 4 dvd pa_bytes_used a') \<and>
   allocate_obj (new_prop_area 128) 22 = Some (20, new_prop_area 128\<lparr>pa_bytes_used := 44\<rparr>) \<and>
   prune_trie 1 (new_prop_area 128) (Some 0) = Some (True, wipe_bt (new_prop_area 128) 0) \<and>
   pruned (new_prop_area 128) (wipe_bt (new_prop_area 128) 0)"
proof -
  let ?a = "new_prop_area 128"
  have al: "allocate_obj ?a 22 = Some (20, ?a\<lparr>pa_bytes_used := 44\<rparr>)"
    by (simp add: allocate_obj_def BIONIC_ALIGN_def example_area_wf)
  have pr: "prune_trie 1 ?a (Some 0) = Some (True, wipe_bt ?a 0)"
    unfolding One_nat_def
    by (simp add: prune_trie_Suc prune_link_def get_bt_def new_prop_area_def zero_bt_def)
  have "apply_ops 130944 example_ops ?a \<noteq> None"
    using bytes_used_never_decreases [of 130944 example_ops ?a ?a 0 0 ?a None False ?a,
            THEN conjunct2, THEN conjunct1] example_area_wf
    by simp
  then obtain a' where a': "apply_ops 130944 example_ops ?a = Some a'" by blast
  show ?thesis
    using bytes_used_never_decreases [of 130944 example_ops ?a a' 22 20 "?a\<lparr>pa_bytes_used := 44\<rparr>"]
      bytes_used_never_decreases [of 1 "[]" ?a ?a 0 0 ?a "Some 0" True "wipe_bt ?a 0"]
      a' al pr example_area_wf
    by simp
qed

text \<open>
  Claim C6. For a name with an empty segment (a leading dot, a trailing dot or two
  consecutive dots), on a well-formed area and with enough fuel, \<^verbatim>\<open>find\<close> returns the null
  pointer and \<^verbatim>\<open>add\<close> returns false; the area after the \<^verbatim>\<open>add\<close> holds the entries it held
  before and no node has a new entry.
\<close>

theorem empty_segment_rejected:
  assumes "has_empty_segment name" and "wf_area a" and "pa_data_size a \<le> fuel"
  shows "prop_area_find fuel a name = Some None \<and>
         (\<exists>a'. prop_area_add fuel a name namelen v valuelen = Some (False, a') \<and>
               (\<forall>off. get_info a' off = get_info a off) \<and>
               (\<forall>off n'. get_bt a' off = Some n' \<longrightarrow>
                  bt_prop n' = 0 \<or> (\<exists>n. get_bt a off = Some n \<and> bt_prop n' = bt_prop n)))"
proof -
  have e: "[] \<in> set (segments name)" using has_empty_segment_segments [OF assms(1)] .
  have r: "p = None \<and> alloc_step\<^sup>*\<^sup>* a a'"
    if "find_property fuel a (Some 0) name nl vv vl alloc = Some (p, a')" for nl vv vl alloc p a'
    using that
  proof (cases rule: find_property_cases)
    case nonode
    then show ?thesis using traverse_loop_steps(1) by blast
  qed (use traverse_loop_empty_segment [OF e] in blast)+
  obtain p a1 where f: "find_property fuel a (Some 0) name (length name) [] 0 False = Some (p, a1)"
    using find_property_total [OF assms(2,3)] by fastforce
  have "prop_area_find fuel a name = Some None"
    using r [OF f] f by (simp add: prop_area_find_def)
  moreover obtain q a' where g: "find_property fuel a (Some 0) name namelen v valuelen True = Some (q, a')"
    using find_property_total [OF assms(2,3)] by fastforce
  have "prop_area_add fuel a name namelen v valuelen = Some (False, a')"
    using r [OF g] g by (simp add: prop_area_add_def)
  moreover note alloc_steps_entries [OF r [OF g, THEN conjunct2] assms(2)]
  ultimately show ?thesis by blast
qed

theorem empty_segment_rejected_witness:
  "has_empty_segment ''a..b'' \<and> wf_area (new_prop_area 128) \<and>
   pa_data_size (new_prop_area 128) \<le> 130944 \<and>
   prop_area_find 130944 (new_prop_area 128) ''a..b'' = Some None \<and>
   (\<exists>a'. prop_area_add 130944 (new_prop_area 128) ''a..b'' 4 ''one'' 3 = Some (False, a') \<and>
         (\<forall>off. get_info a' off = None))"
proof -
  have h: "has_empty_segment ''a..b''"
    unfolding has_empty_segment_def
    by (intro conjI disjI2 exI [of _ "''a''"] exI [of _ "''b''"]) simp_all
  have i: "get_info (new_prop_area 128) off = None" for off
    by (simp add: get_info_def new_prop_area_def)
  show ?thesis
    using empty_segment_rejected [OF h example_area_wf(1), of 130944 4 "''one''" 3]
      h example_area_wf(1,2) i
    by auto
qed

text \<open>
  Claim C1, as amended. On a store whose areas are well formed, for a name that has no
  entry and a value shorter than \<open>PROP_VALUE_MAX\<close>: after an \<^verbatim>\<open>Add\<close> of the name that
  returns 0, \<^verbatim>\<open>Get\<close> returns the length of the value and leaves the value, terminated, in
  the caller's buffer.
\<close>

theorem Add_Get_round_trip:
  assumes "wf_store fuel sp" and "SystemProperties_Find fuel sp name = Some None"
      and "strlen v < PROP_VALUE_MAX"
      and "SystemProperties_Add fuel sp name namelen v (strlen v) = Some (0, sp')"
      and "length out = PROP_VALUE_MAX"
  shows "\<exists>out'. SystemProperties_Get fuel sp' name out = Some (int (strlen v), out') \<and>
               c_str out' = c_str v \<and> length out' = PROP_VALUE_MAX"
  using assms by (rule Get_after_Add)

theorem Add_Get_round_trip_witness:
  "wf_store 130944 empty_store \<and> SystemProperties_Find 130944 empty_store ''a.b'' = Some None \<and>
   strlen ''one'' < PROP_VALUE_MAX \<and>
   (\<exists>sp' out'. SystemProperties_Add 130944 empty_store ''a.b'' 3 ''one'' (strlen ''one'') = Some (0, sp') \<and>
      SystemProperties_Get 130944 sp' ''a.b'' (replicate PROP_VALUE_MAX NUL) = Some (3, out') \<and>
      c_str out' = ''one'')"
proof -
  obtain a' where a: "prop_area_add 130944 (new_prop_area 128) ''a.b'' 3 ''one'' 3 = Some (True, a')"
    using example_add by blast
  have ad: "SystemProperties_Add 130944 empty_store ''a.b'' 3 ''one'' (strlen ''one'') =
              Some (0, bump_serial (set_context_area empty_store 0 a'))"
    using empty_store_Add [OF a] by (simp add: PROP_VALUE_MAX_def)
  have l: "strlen ''one'' < PROP_VALUE_MAX" by (simp add: PROP_VALUE_MAX_def)
  show ?thesis
    using Add_Get_round_trip [OF empty_store_wf empty_store_Find [OF example_find] l ad,
            of "replicate PROP_VALUE_MAX NUL"] empty_store_wf empty_store_Find [OF example_find]
      l ad
    by auto
qed

text \<open>
  The claim as stated fails for a name that has an entry: the second \<^verbatim>\<open>Add\<close> returns 0
  and \<^verbatim>\<open>Get\<close> still yields the first value.
\<close>

theorem Add_existing_name_counterexample:
  "\<exists>sp1 sp2 out'.
     SystemProperties_Add 130944 empty_store ''a.b'' 3 ''1'' 1 = Some (0, sp1) \<and>
     SystemProperties_Add 130944 sp1 ''a.b'' 3 ''2'' 1 = Some (0, sp2) \<and>
     SystemProperties_Get 130944 sp2 ''a.b'' (replicate PROP_VALUE_MAX NUL) = Some (1, out') \<and>
     c_str out' = ''1'' \<and> c_str out' \<noteq> ''2''"
proof -
  obtain a' where a: "prop_area_add 130944 (new_prop_area 128) ''a.b'' 3 ''1'' 1 = Some (True, a')"
    using example_add_again by blast
  define sp1 where "sp1 = bump_serial (set_context_area empty_store 0 a')"
  have ad: "SystemProperties_Add 130944 empty_store ''a.b'' 3 ''1'' (strlen ''1'') = Some (0, sp1)"
    using empty_store_Add [OF a] by (simp add: PROP_VALUE_MAX_def sp1_def)
  have l: "strlen ''1'' < PROP_VALUE_MAX" by (simp add: PROP_VALUE_MAX_def)
  note fe = empty_store_Find [OF example_find]
  obtain out' where g: "SystemProperties_Get 130944 sp1 ''a.b'' (replicate PROP_VALUE_MAX NUL) =
      Some (1, out')" "c_str out' = ''1''"
    using Get_after_Add [OF empty_store_wf fe l ad, of "replicate PROP_VALUE_MAX NUL"] by auto
  obtain pi where f1: "SystemProperties_Find 130944 sp1 ''a.b'' = Some (Some pi)"
    using Add_created [OF empty_store_wf fe ad] by metis
  have w1: "wf_store 130944 sp1" using wf_store_Add [OF empty_store_wf ad] .
  have "sp_rw sp1" "sp_serial_prop_area sp1 \<noteq> None"
    by (simp_all add: sp1_def bump_serial_def set_context_area_def empty_store_def)
  then have "SystemProperties_Add 130944 sp1 ''a.b'' 3 ''2'' 1 = Some (0, bump_serial sp1)"
    using Add_existing [OF w1 f1] by (simp add: PROP_VALUE_MAX_def)
  then show ?thesis using ad g by auto
qed

text \<open>
  Claim C8. After a successful \<^verbatim>\<open>Add\<close> of a name that had no entry, with a value of
  \<open>PROP_VALUE_MAX\<close> characters or more: the name begins with \<^verbatim>\<open>ro.\<close>, the entry has the long
  flag, \<^verbatim>\<open>Read\<close> and \<^verbatim>\<open>Get\<close> return the length of the legacy error string and leave that
  string in the caller's buffer, and \<^verbatim>\<open>ReadCallback\<close> passes the name and the whole value
  to the callback.
\<close>

theorem long_value_legacy_read:
  assumes "wf_store fuel sp" and "SystemProperties_Find fuel sp name = Some None"
      and "PROP_VALUE_MAX \<le> strlen v"
      and "SystemProperties_Add fuel sp name (length name) v (strlen v) = Some (0, sp')"
      and "length out = PROP_VALUE_MAX"
  shows "is_read_only name \<and>
         (\<exists>pi info out'.
            SystemProperties_Find fuel sp' name = Some (Some pi) \<and>
            deref_info sp' pi = Some info \<and> is_long info \<and>
            SystemProperties_Read sp' pi None out =
              Some (int (length kLongLegacyError), None, out') \<and>
            SystemProperties_Get fuel sp' name out = Some (int (length kLongLegacyError), out') \<and>
            c_str out' = kLongLegacyError \<and>
            SystemProperties_ReadCallback sp' pi callback cookie =
              Some (callback cookie name (c_str v) (pi_serial info)))"
proof -
  from assms(1,2,4) obtain i off info a' where
    f: "SystemProperties_Find fuel sp' name = Some (Some (i, off))"
    and c: "context_area sp' i = Some a'"
    and d: "deref_info sp' (i, off) = Some info"
    and lg: "PROP_VALUE_MAX \<le> strlen v \<Longrightarrow>
       is_read_only name \<and> is_long info \<and> pi_name info = take (length name) name \<and>
       pi_serial info = push_bit 24 (of_nat (length kLongLegacyError)) OR kLongFlag \<and>
       pi_value info = memcpy (replicate PROP_VALUE_MAX NUL) (kLongLegacyError @ [NUL])
                         (length kLongLegacyError + 1) \<and>
       get_blob a' (off + pi_long_offset info) = Some (take (strlen v) v @ [NUL])"
    by (rule Add_created) blast
  note l = lg [OF assms(3)]
  obtain out' where r: "SystemProperties_Read sp' (i, off) None out =
                 Some (int (length kLongLegacyError), None, out')"
    "c_str out' = kLongLegacyError"
    using Read_long [OF d _ _ assms(5)] l by blast
  have g: "SystemProperties_Get fuel sp' name out = Some (int (length kLongLegacyError), out')"
    using Get_found [OF f r(1)] .
  have n: "pi_name info = name" using l by simp
  have cb: "SystemProperties_ReadCallback sp' (i, off) callback cookie =
              Some (callback cookie name (c_str v) (pi_serial info))"
    using ReadCallback_long [OF d c, of v callback cookie] l n by simp
  show ?thesis using l f d r g cb by blast
qed

theorem long_value_legacy_read_witness:
  "wf_store 130944 empty_store \<and> SystemProperties_Find 130944 empty_store ''ro.x'' = Some None \<and>
   PROP_VALUE_MAX \<le> strlen (replicate 100 CHR ''v'') \<and>
   (\<exists>sp' pi info out'.
      SystemProperties_Add 130944 empty_store ''ro.x'' (length ''ro.x'')
        (replicate 100 CHR ''v'') (strlen (replicate 100 CHR ''v'')) = Some (0, sp') \<and>
      SystemProperties_Find 130944 sp' ''ro.x'' = Some (Some pi) \<and>
      SystemProperties_Get 130944 sp' ''ro.x'' (replicate PROP_VALUE_MAX NUL) = Some (50, out') \<and>
      c_str out' = kLongLegacyError \<and>
      SystemProperties_ReadCallback sp' pi (\<lambda>cookie name v serial. v) [] =
        Some (replicate 100 CHR ''v''))"
proof -
  let ?v = "replicate 100 CHR ''v''"
  have sl: "strlen ?v = 100" "c_str ?v = ?v" by (simp_all add: strlen_replicate NUL_def)
  obtain a' where a: "prop_area_add 130944 (new_prop_area 128) ''ro.x'' 4 ?v 100 = Some (True, a')"
    using example_long_add by blast
  have len: "length ''ro.x'' = 4" by simp
  have ro: "is_read_only ''ro.x''" by (simp add: is_read_only_def eval_nat_numeral)
  have ad: "SystemProperties_Add 130944 empty_store ''ro.x'' (length ''ro.x'') ?v (strlen ?v) =
              Some (0, bump_serial (set_context_area empty_store 0 a'))"
    using empty_store_Add [OF a] ro unfolding sl len by simp
  have l: "PROP_VALUE_MAX \<le> strlen ?v" by (simp add: sl PROP_VALUE_MAX_def)
  note fe = empty_store_Find [OF example_long_find]
  show ?thesis
    using long_value_legacy_read [OF empty_store_wf fe l ad, of "replicate PROP_VALUE_MAX NUL"
            "\<lambda>cookie name v serial. v" "[]"] empty_store_wf fe l ad
    by (auto simp add: sl)
qed

end
